theory Spec2Isabelle
  imports Complex_Main "HOL-Library.Sublist"
begin

section \<open>Python values\<close>

text \<open>
  The exporter works on whatever \<^verbatim>\<open>response.json()\<close> hands back, and branches on the
  shape of that value at run time. The values are therefore modelled as one datatype, the
  image of JSON in Python: \<^verbatim>\<open>None\<close>, \<^verbatim>\<open>bool\<close>, \<^verbatim>\<open>int\<close>, \<^verbatim>\<open>float\<close>, \<^verbatim>\<open>str\<close>,
  \<^verbatim>\<open>list\<close> and \<^verbatim>\<open>dict\<close> (string keys, in insertion order).

  A float is an extended rational: every finite double is a rational number, and Python's
  JSON decoder also accepts \<^verbatim>\<open>Infinity\<close>, \<^verbatim>\<open>-Infinity\<close> and \<^verbatim>\<open>NaN\<close>. Comparing an
  \<^verbatim>\<open>int\<close> with a \<^verbatim>\<open>float\<close> is exact in Python, so comparisons are modelled on the
  rational values. A character stands for one code point of the Python string.
\<close>

datatype pyfloat = Fin rat | PInf | NInf | NaN

datatype pyval =
    PNone
  | PBool bool
  | PInt int
  | PFloat pyfloat
  | PStr string
  | PList "pyval list"
  | PDict "(string \<times> pyval) list"

text \<open>
  The exceptions that can reach the modelled code: the built-in ones raised by operations
  on values of the wrong type and by writing to a stream, and the exception classes of the
  \<^verbatim>\<open>requests\<close> library.
\<close>

datatype exc =
    TypeError
  | KeyError
  | AttributeError
  | ValueError
  | UnicodeEncodeError
  | OverflowError
  | UnboundLocalError
  | OSError
  | HTTPError
  | ConnectionError
  | ProxyError
  | SSLError
  | ConnectTimeout
  | ReadTimeout
  | Timeout
  | RequestException

text \<open>
  \<^verbatim>\<open>except C as e\<close> catches the instances of \<^verbatim>\<open>C\<close> and of its subclasses. In
  \<^verbatim>\<open>requests.exceptions\<close>, \<^verbatim>\<open>ProxyError\<close>, \<^verbatim>\<open>SSLError\<close> and \<^verbatim>\<open>ConnectTimeout\<close> derive from
  \<^verbatim>\<open>ConnectionError\<close>; \<^verbatim>\<open>ConnectTimeout\<close> and \<^verbatim>\<open>ReadTimeout\<close> derive from \<^verbatim>\<open>Timeout\<close>; all
  of them and \<^verbatim>\<open>HTTPError\<close> derive from \<^verbatim>\<open>RequestException\<close>. The constructor
  \<open>RequestException\<close> stands for the base class and for its remaining subclasses.
\<close>

definition is_HTTPError :: "exc \<Rightarrow> bool" where
  "is_HTTPError e = (e = HTTPError)"

definition is_ConnectionError :: "exc \<Rightarrow> bool" where
  "is_ConnectionError e = (e \<in> {ConnectionError, ProxyError, SSLError, ConnectTimeout})"

definition is_Timeout :: "exc \<Rightarrow> bool" where
  "is_Timeout e = (e \<in> {Timeout, ConnectTimeout, ReadTimeout})"

definition is_RequestException :: "exc \<Rightarrow> bool" where
  "is_RequestException e =
     (e \<in> {RequestException, HTTPError, ConnectionError, ProxyError, SSLError,
            ConnectTimeout, ReadTimeout, Timeout})"

subsection \<open>Truth value, membership, subscription, iteration\<close>

text \<open>\<^verbatim>\<open>bool(v)\<close>, as used by \<^verbatim>\<open>if v\<close>, \<^verbatim>\<open>not v\<close> and \<^verbatim>\<open>v and ...\<close>.\<close>

fun truthy :: "pyval \<Rightarrow> bool" where
  "truthy PNone = False"
| "truthy (PBool b) = b"
| "truthy (PInt i) = (i \<noteq> 0)"
| "truthy (PFloat f) = (f \<noteq> Fin 0)"
| "truthy (PStr s) = (s \<noteq> [])"
| "truthy (PList xs) = (xs \<noteq> [])"
| "truthy (PDict kvs) = (kvs \<noteq> [])"

text \<open>
  A dict is an association list in which the first binding of a key is the one that counts;
  \<open>dict_keys\<close> lists the keys once each, in order.
\<close>

fun dict_keys :: "(string \<times> pyval) list \<Rightarrow> string list" where
  "dict_keys [] = []"
| "dict_keys ((k, v) # kvs) = k # filter (\<lambda>k'. k' \<noteq> k) (dict_keys kvs)"

text \<open>
  \<^verbatim>\<open>k in v\<close> for a string \<open>k\<close>: key membership in a dict, element membership in a list,
  substring test in a string, \<^verbatim>\<open>TypeError\<close> on anything else.
\<close>

fun py_in :: "string \<Rightarrow> pyval \<Rightarrow> exc + bool" where
  "py_in k (PDict kvs) = Inr (map_of kvs k \<noteq> None)"
| "py_in k (PList xs) = Inr (PStr k \<in> set xs)"
| "py_in k (PStr s) = Inr (sublist k s)"
| "py_in k v = Inl TypeError"

text \<open>\<^verbatim>\<open>v[k]\<close> for a string \<open>k\<close>: only a dict can be subscripted by a string.\<close>

fun py_getitem :: "pyval \<Rightarrow> string \<Rightarrow> exc + pyval" where
  "py_getitem (PDict kvs) k = (case map_of kvs k of None \<Rightarrow> Inl KeyError | Some v \<Rightarrow> Inr v)"
| "py_getitem v k = Inl TypeError"

text \<open>\<^verbatim>\<open>v.get(k, default)\<close>: a method of dicts only.\<close>

fun py_get :: "pyval \<Rightarrow> string \<Rightarrow> pyval \<Rightarrow> exc + pyval" where
  "py_get (PDict kvs) k d = (case map_of kvs k of None \<Rightarrow> Inr d | Some v \<Rightarrow> Inr v)"
| "py_get v k d = Inl AttributeError"

text \<open>
  The elements that \<^verbatim>\<open>list.extend(v)\<close> appends: the elements of a list, the characters of
  a string, the keys of a dict; \<^verbatim>\<open>TypeError\<close> when \<open>v\<close> is not iterable.
\<close>

fun py_iter :: "pyval \<Rightarrow> exc + pyval list" where
  "py_iter (PList xs) = Inr xs"
| "py_iter (PStr s) = Inr (map (\<lambda>c. PStr [c]) s)"
| "py_iter (PDict kvs) = Inr (map PStr (dict_keys kvs))"
| "py_iter v = Inl TypeError"

text \<open>\<^verbatim>\<open>len(v)\<close>.\<close>

fun py_len :: "pyval \<Rightarrow> exc + int" where
  "py_len (PList xs) = Inr (int (length xs))"
| "py_len (PStr s) = Inr (int (length s))"
| "py_len (PDict kvs) = Inr (int (length (dict_keys kvs)))"
| "py_len v = Inl TypeError"

text \<open>\<^verbatim>\<open>isinstance(v, list)\<close>.\<close>

fun is_list :: "pyval \<Rightarrow> bool" where
  "is_list (PList xs) = True"
| "is_list v = False"

subsection \<open>Numbers\<close>

text \<open>The numeric value of a number; \<^verbatim>\<open>bool\<close> is a subclass of \<^verbatim>\<open>int\<close>.\<close>

fun num_of :: "pyval \<Rightarrow> pyfloat option" where
  "num_of (PBool b) = Some (Fin (if b then 1 else 0))"
| "num_of (PInt i) = Some (Fin (of_int i))"
| "num_of (PFloat f) = Some f"
| "num_of v = None"

text \<open>Order on floats: every comparison with \<^verbatim>\<open>NaN\<close> is false.\<close>

fun fl_less :: "pyfloat \<Rightarrow> pyfloat \<Rightarrow> bool" where
  "fl_less (Fin a) (Fin b) = (a < b)"
| "fl_less (Fin a) PInf = True"
| "fl_less NInf (Fin b) = True"
| "fl_less NInf PInf = True"
| "fl_less x y = False"

fun fl_eq :: "pyfloat \<Rightarrow> pyfloat \<Rightarrow> bool" where
  "fl_eq NaN y = False"
| "fl_eq x NaN = False"
| "fl_eq x y = (x = y)"

text \<open>
  \<^verbatim>\<open>i < v\<close>, \<^verbatim>\<open>i >= v\<close> and \<^verbatim>\<open>v <= i\<close> for an integer \<open>i\<close>: \<^verbatim>\<open>TypeError\<close> unless \<open>v\<close>
  is a number. \<^verbatim>\<open>v == i\<close> never raises: a value that is not a number is not equal to one.
\<close>

definition py_int_lt :: "int \<Rightarrow> pyval \<Rightarrow> exc + bool" where
  "py_int_lt i v =
     (case num_of v of None \<Rightarrow> Inl TypeError | Some x \<Rightarrow> Inr (fl_less (Fin (of_int i)) x))"

definition py_int_ge :: "int \<Rightarrow> pyval \<Rightarrow> exc + bool" where
  "py_int_ge i v =
     (case num_of v of None \<Rightarrow> Inl TypeError
      | Some x \<Rightarrow> Inr (fl_less x (Fin (of_int i)) \<or> fl_eq x (Fin (of_int i))))"

definition py_le_int :: "pyval \<Rightarrow> int \<Rightarrow> exc + bool" where
  "py_le_int v i =
     (case num_of v of None \<Rightarrow> Inl TypeError
      | Some x \<Rightarrow> Inr (fl_less x (Fin (of_int i)) \<or> fl_eq x (Fin (of_int i))))"

definition py_eq_int :: "pyval \<Rightarrow> int \<Rightarrow> bool" where
  "py_eq_int v i = (case num_of v of None \<Rightarrow> False | Some x \<Rightarrow> fl_eq x (Fin (of_int i)))"

text \<open>
  \<^verbatim>\<open>a + b\<close> as \<^verbatim>\<open>processed_pipeline_count += pipeline_count\<close> uses it, the left operand
  being an \<^verbatim>\<open>int\<close> or a \<^verbatim>\<open>float\<close>. Integer addition is exact. Floating-point addition (with the conversion
  of an \<^verbatim>\<open>int\<close> operand, which can overflow) is not modelled and is the parameter
  \<open>fadd\<close>.
\<close>

definition py_add :: "(pyval \<Rightarrow> pyval \<Rightarrow> exc + pyval) \<Rightarrow> pyval \<Rightarrow> pyval \<Rightarrow> exc + pyval" where
  "py_add fadd a b =
     (case (a, b) of
        (PInt i, PInt j) \<Rightarrow> Inr (PInt (i + j))
      | (PInt i, PBool c) \<Rightarrow> Inr (PInt (i + (if c then 1 else 0)))
      | (PInt i, PFloat g) \<Rightarrow> fadd a b
      | (PFloat f, PInt j) \<Rightarrow> fadd a b
      | (PFloat f, PBool c) \<Rightarrow> fadd a b
      | (PFloat f, PFloat g) \<Rightarrow> fadd a b
      | _ \<Rightarrow> Inl TypeError)"

section \<open>The outside world\<close>

text \<open>
  A request is what \<^verbatim>\<open>requests.get(url, headers=..., params=..., timeout=30)\<close> sends. The
  call either raises or returns a response object, of which the code uses
  \<^verbatim>\<open>raise_for_status()\<close> (decided by the status code), \<^verbatim>\<open>text\<close> and \<^verbatim>\<open>json()\<close>, which
  itself returns the decoded body or raises.
\<close>

record request =
  url :: string
  headers :: "(string \<times> string) list"
  params :: "(string \<times> pyval) list"
  timeout :: nat

record http_response =
  status_code :: nat
  text_of :: string
  json_of :: "exc + pyval"

datatype get_outcome = GetRaises exc | GetReturns http_response

text \<open>
  The server decides the outcome of a request from the request and from the number of
  requests made before it, so that its answers may change from call to call.
\<close>

type_synonym server = "nat \<Rightarrow> request \<Rightarrow> get_outcome"

text \<open>
  A printed line is the sequence of the literal and interpolated parts of its f-string.
\<close>

datatype frag = Lit string | Val pyval | Exc exc

type_synonym message = "frag list"

text \<open>
  The world records every request with its outcome, every line printed, and every report
  file written (its name and its rows), in order.
\<close>

record world =
  exchanges :: "(request \<times> get_outcome) list"
  printed :: "message list"
  files :: "(string \<times> pyval list) list"

text \<open>
  Standard output is part of the environment. Writing a line to it can fail: the stream
  raises \<^verbatim>\<open>UnicodeEncodeError\<close> when its encoding has no code for a character of the
  line, and \<^verbatim>\<open>OSError\<close> when it has been closed at the other end. The console tells
  for every line whether writing it fails, and with which exception.
\<close>

type_synonym console = "message \<Rightarrow> exc option"

text \<open>The world after the line \<open>m\<close> has been written.\<close>

definition written :: "message \<Rightarrow> world \<Rightarrow> world" where
  "written m w = w\<lparr>printed := printed w @ [m]\<rparr>"

text \<open>\<^verbatim>\<open>print(f"...")\<close>: the line is written, or the exception of the stream is raised.\<close>

definition print :: "console \<Rightarrow> message \<Rightarrow> world \<Rightarrow> exc + world" where
  "print con m w = (case con m of None \<Rightarrow> Inr (written m w) | Some e \<Rightarrow> Inl e)"

section \<open>The fetcher\<close>

text \<open>\<^verbatim>\<open>response.raise_for_status()\<close> raises \<^verbatim>\<open>HTTPError\<close> for a 4xx or 5xx status.\<close>

definition raise_for_status :: "http_response \<Rightarrow> exc + unit" where
  "raise_for_status r =
     (if 400 \<le> status_code r \<and> status_code r < 600 then Inl HTTPError else Inr ())"

text \<open>
  The \<^verbatim>\<open>try\<close> block of \<^verbatim>\<open>make_api_request\<close>: its value, or the exception it raises
  together with the response object if \<^verbatim>\<open>response\<close> has been bound by then.
\<close>

definition try_get :: "get_outcome \<Rightarrow> (exc \<times> http_response option) + pyval" where
  "try_get out =
     (case out of
        GetRaises e \<Rightarrow> Inl (e, None)
      | GetReturns response \<Rightarrow>
          (case raise_for_status response of
             Inl e \<Rightarrow> Inl (e, Some response)
           | Inr _ \<Rightarrow>
               (case json_of response of
                  Inl e \<Rightarrow> Inl (e, Some response)
                | Inr v \<Rightarrow> Inr v)))"

text \<open>
  \<^verbatim>\<open>make_api_request(url, headers, params=None)\<close>. The \<^verbatim>\<open>except\<close> clauses are tried in
  the order of the source; the first one reads \<^verbatim>\<open>response.text\<close>, which is unbound when
  \<^verbatim>\<open>requests.get\<close> itself raised. An exception that no clause catches propagates, and so
  does an exception raised by the \<^verbatim>\<open>print\<close> of a clause. The result \<open>PNone\<close> is Python's
  \<^verbatim>\<open>None\<close>, returned by the last statement when a clause has printed its line.
\<close>

definition make_api_request ::
  "console \<Rightarrow> server \<Rightarrow> string \<Rightarrow> (string \<times> string) list \<Rightarrow> (string \<times> pyval) list option \<Rightarrow> world
     \<Rightarrow> (exc + pyval) \<times> world" where
  "make_api_request con srv u hs ps w =
     (let ps = (case ps of None \<Rightarrow> [] | Some p \<Rightarrow> p);
          req = \<lparr>url = u, headers = hs, params = ps, timeout = 30\<rparr>;
          out = srv (length (exchanges w)) req;
          w1 = w\<lparr>exchanges := exchanges w @ [(req, out)]\<rparr>
      in case try_get out of
           Inr v \<Rightarrow> (Inr v, w1)
         | Inl (e, response) \<Rightarrow>
             if is_HTTPError e then
               (case response of
                  None \<Rightarrow> (Inl UnboundLocalError, w1)
                | Some r \<Rightarrow>
                    (case print con [Lit ''HTTP error occurred: '', Exc e, Lit '' - '',
                                     Lit (text_of r)] w1 of
                       Inl e' \<Rightarrow> (Inl e', w1)
                     | Inr w2 \<Rightarrow> (Inr PNone, w2)))
             else if is_ConnectionError e then
               (case print con [Lit ''Connection error occurred: '', Exc e] w1 of
                  Inl e' \<Rightarrow> (Inl e', w1)
                | Inr w2 \<Rightarrow> (Inr PNone, w2))
             else if is_Timeout e then
               (case print con [Lit ''Timeout error occurred: '', Exc e] w1 of
                  Inl e' \<Rightarrow> (Inl e', w1)
                | Inr w2 \<Rightarrow> (Inr PNone, w2))
             else if is_RequestException e then
               (case print con [Lit ''An unexpected error occurred: '', Exc e] w1 of
                  Inl e' \<Rightarrow> (Inl e', w1)
                | Inr w2 \<Rightarrow> (Inr PNone, w2))
             else (Inl e, w1))"


section \<open>Loops\<close>

text \<open>
  One pass through the body of a \<^verbatim>\<open>while\<close> loop ends in one of three ways: it reaches the
  end of the body (\<open>Continue\<close>), it executes \<^verbatim>\<open>break\<close>, or it raises.
\<close>

datatype 's ctl = Continue 's | Break 's | Raise exc 's

text \<open>
  \<^verbatim>\<open>while c: b\<close>. The test may raise as well. The loop need not end, so its result is
  optional: \<open>None\<close> is the run that goes on for ever; \<open>Some (Inr s)\<close> is a normal exit in
  state \<open>s\<close>, and \<open>Some (Inl (e, s))\<close> the exception \<open>e\<close> raised in state \<open>s\<close>.
\<close>

partial_function (option) py_while ::
  "('s \<Rightarrow> exc + bool) \<Rightarrow> ('s \<Rightarrow> 's ctl) \<Rightarrow> 's \<Rightarrow> ((exc \<times> 's) + 's) option" where
  "py_while c b s =
     (case c s of
        Inl e \<Rightarrow> Some (Inl (e, s))
      | Inr t \<Rightarrow>
          if t then
            (case b s of
               Continue s' \<Rightarrow> py_while c b s'
             | Break s' \<Rightarrow> Some (Inr s')
             | Raise e s' \<Rightarrow> Some (Inl (e, s')))
          else Some (Inr s))"

declare py_while.simps [code]

section \<open>The paginator\<close>

text \<open>The local variables of a pagination loop.\<close>

record pstate =
  all_items :: "pyval list"
  page_index :: int
  total_pages :: pyval

definition pstate0 :: pstate where
  "pstate0 = \<lparr>all_items = [], page_index = 0, total_pages = PInt 1\<rparr>"

text \<open>The loop test \<^verbatim>\<open>page_index < total_pages\<close>.\<close>

definition more_pages :: "pstate \<times> world \<Rightarrow> exc + bool" where
  "more_pages sw = py_int_lt (page_index (fst sw)) (total_pages (fst sw))"

text \<open>\<^verbatim>\<open>data and "data" in data and key in data["data"]\<close>.\<close>

definition cond_nested :: "pyval \<Rightarrow> string \<Rightarrow> exc + bool" where
  "cond_nested data key =
     (if \<not> truthy data then Inr False
      else case py_in ''data'' data of
             Inl e \<Rightarrow> Inl e
           | Inr False \<Rightarrow> Inr False
           | Inr True \<Rightarrow>
               (case py_getitem data ''data'' of
                  Inl e \<Rightarrow> Inl e
                | Inr d \<Rightarrow> py_in key d))"

text \<open>\<^verbatim>\<open>data and isinstance(data.get("data"), list) and key_name == "data_list_direct"\<close>.\<close>

definition cond_direct :: "pyval \<Rightarrow> string \<Rightarrow> exc + bool" where
  "cond_direct data key_name =
     (if \<not> truthy data then Inr False
      else case py_get data ''data'' PNone of
             Inl e \<Rightarrow> Inl e
           | Inr d \<Rightarrow> Inr (is_list d \<and> key_name = ''data_list_direct''))"

text \<open>\<^verbatim>\<open>data["data"][key]\<close>.\<close>

definition nested_items :: "pyval \<Rightarrow> string \<Rightarrow> exc + pyval" where
  "nested_items data key =
     (case py_getitem data ''data'' of Inl e \<Rightarrow> Inl e | Inr d \<Rightarrow> py_getitem d key)"

text \<open>\<^verbatim>\<open>data.get("data", {}).get("totalPages", total_pages)\<close>.\<close>

definition nested_total_pages :: "pyval \<Rightarrow> pyval \<Rightarrow> exc + pyval" where
  "nested_total_pages data tp =
     (case py_get data ''data'' (PDict []) of
        Inl e \<Rightarrow> Inl e
      | Inr d \<Rightarrow> py_get d ''totalPages'' tp)"

text \<open>
  The body of the loop of \<^verbatim>\<open>fetch_all_with_pagination\<close>: one request, then the branch for
  a list nested at \<^verbatim>\<open>data.<key_name>\<close>, the branch for a list directly at \<^verbatim>\<open>data\<close>, or
  the warning; then the increment of the page index and the test against the total.
\<close>

definition fetch_body ::
  "console \<Rightarrow> server \<Rightarrow> string \<Rightarrow> (string \<times> string) list \<Rightarrow> string \<Rightarrow> string \<Rightarrow> int
     \<Rightarrow> pstate \<times> world \<Rightarrow> (pstate \<times> world) ctl" where
  "fetch_body con srv u hs account_id key_name page_size sw =
     (let s = fst sw;
          ps = [(''accountIdentifier'', PStr account_id), (''page'', PInt (page_index s)),
                (''size'', PInt page_size)];
          rw = make_api_request con srv u hs (Some ps) (snd sw);
          w = snd rw
      in case fst rw of
           Inl e \<Rightarrow> Raise e (s, w)
         | Inr data \<Rightarrow>
             (case
                (case cond_nested data key_name of
                   Inl e \<Rightarrow> Raise e (s, w)
                 | Inr True \<Rightarrow>
                     (case nested_items data key_name of
                        Inl e \<Rightarrow> Raise e (s, w)
                      | Inr items_on_page \<Rightarrow>
                          if \<not> truthy items_on_page \<and> page_index s > 0 then Break (s, w)
                          else
                            (case py_iter items_on_page of
                               Inl e \<Rightarrow> Raise e (s, w)
                             | Inr xs \<Rightarrow>
                                 let s = s\<lparr>all_items := all_items s @ xs\<rparr> in
                                 (case nested_total_pages data (total_pages s) of
                                    Inl e \<Rightarrow> Raise e (s, w)
                                  | Inr tp \<Rightarrow>
                                      let s = s\<lparr>total_pages := tp\<rparr> in
                                      if \<not> truthy items_on_page \<and> py_eq_int (total_pages s) 0
                                         \<and> page_index s = 0
                                      then Break (s, w)
                                      else
                                        (case py_len items_on_page of
                                           Inl e \<Rightarrow> Raise e (s, w)
                                         | Inr n \<Rightarrow>
                                             if n < page_size then Break (s, w)
                                             else Continue (s, w)))))
                 | Inr False \<Rightarrow>
                     (case cond_direct data key_name of
                        Inl e \<Rightarrow> Raise e (s, w)
                      | Inr True \<Rightarrow>
                          (case py_getitem data ''data'' of
                             Inl e \<Rightarrow> Raise e (s, w)
                           | Inr items_on_page \<Rightarrow>
                               if \<not> truthy items_on_page \<and> page_index s > 0 then Break (s, w)
                               else
                                 (case py_iter items_on_page of
                                    Inl e \<Rightarrow> Raise e (s, w)
                                  | Inr xs \<Rightarrow>
                                      let s = s\<lparr>all_items := all_items s @ xs\<rparr> in
                                      (case py_get data ''totalPages'' (total_pages s) of
                                         Inl e \<Rightarrow> Raise e (s, w)
                                       | Inr tp \<Rightarrow>
                                           let s = s\<lparr>total_pages := tp\<rparr> in
                                           if \<not> truthy items_on_page
                                              \<and> py_eq_int (total_pages s) 0 \<and> page_index s = 0
                                           then Break (s, w)
                                           else
                                             (case py_len items_on_page of
                                                Inl e \<Rightarrow> Raise e (s, w)
                                              | Inr n \<Rightarrow>
                                                  if n < page_size then Break (s, w)
                                                  else Continue (s, w)))))
                      | Inr False \<Rightarrow>
                          (case print con [Lit ''Warning: Could not fetch '', Lit key_name,
                                           Lit '' or unexpected response structure from '', Lit u,
                                           Lit '' on page '', Val (PInt (page_index s)), Lit ''.''] w of
                             Inl e \<Rightarrow> Raise e (s, w)
                           | Inr w' \<Rightarrow> Break (s, w'))))
              of
                Continue (s, w) \<Rightarrow>
                  let s = s\<lparr>page_index := page_index s + 1\<rparr> in
                  (case py_int_ge (page_index s) (total_pages s) of
                     Inl e \<Rightarrow> Raise e (s, w)
                   | Inr True \<Rightarrow> Break (s, w)
                   | Inr False \<Rightarrow> Continue (s, w))
              | Break sw' \<Rightarrow> Break sw'
              | Raise e sw' \<Rightarrow> Raise e sw'))"

text \<open>
  What a function that runs a pagination loop returns: the list accumulated when the loop
  is left, or the exception that left it.
\<close>

definition loop_result ::
  "((exc \<times> pstate \<times> world) + pstate \<times> world) option \<Rightarrow> ((exc + pyval list) \<times> world) option" where
  "loop_result r =
     (case r of
        None \<Rightarrow> None
      | Some (Inl (e, s, w)) \<Rightarrow> Some (Inl e, w)
      | Some (Inr (s, w)) \<Rightarrow> Some (Inr (all_items s), w))"

text \<open>\<^verbatim>\<open>fetch_all_with_pagination(url, headers, account_id, key_name, page_size=100)\<close>.\<close>

definition fetch_all_with_pagination ::
  "console \<Rightarrow> server \<Rightarrow> string \<Rightarrow> (string \<times> string) list \<Rightarrow> string \<Rightarrow> string \<Rightarrow> int option \<Rightarrow> world
     \<Rightarrow> ((exc + pyval list) \<times> world) option" where
  "fetch_all_with_pagination con srv u hs account_id key_name page_size w =
     (let page_size = (case page_size of None \<Rightarrow> 100 | Some n \<Rightarrow> n)
      in loop_result
           (py_while more_pages (fetch_body con srv u hs account_id key_name page_size)
              (pstate0, w)))"

section \<open>Project and pipeline lookup\<close>

text \<open>
  The body of the loop of \<^verbatim>\<open>get_projects\<close>. The locals \<^verbatim>\<open>all_projects\<close>,
  \<^verbatim>\<open>page_index\<close> and \<^verbatim>\<open>total_pages\<close> are the fields of the loop state; the page size
  is the local constant 100.
\<close>

definition get_projects_body ::
  "console \<Rightarrow> server \<Rightarrow> string \<Rightarrow> (string \<times> string) list \<Rightarrow> string \<Rightarrow> pyval
     \<Rightarrow> pstate \<times> world \<Rightarrow> (pstate \<times> world) ctl" where
  "get_projects_body con srv u hs account_id org_identifier sw =
     (let s = fst sw;
          page_size = 100;
          ps = [(''accountIdentifier'', PStr account_id), (''orgIdentifier'', org_identifier),
                (''page'', PInt (page_index s)), (''size'', PInt page_size)];
          rw = make_api_request con srv u hs (Some ps) (snd sw);
          w = snd rw
      in case fst rw of
           Inl e \<Rightarrow> Raise e (s, w)
         | Inr response_data \<Rightarrow>
             (case
                (case cond_nested response_data ''content'' of
                   Inl e \<Rightarrow> Raise e (s, w)
                 | Inr True \<Rightarrow>
                     (case nested_items response_data ''content'' of
                        Inl e \<Rightarrow> Raise e (s, w)
                      | Inr projects_on_page \<Rightarrow>
                          if \<not> truthy projects_on_page \<and> page_index s > 0 then Break (s, w)
                          else
                            (case py_iter projects_on_page of
                               Inl e \<Rightarrow> Raise e (s, w)
                             | Inr xs \<Rightarrow>
                                 let s = s\<lparr>all_items := all_items s @ xs\<rparr> in
                                 (case nested_total_pages response_data (total_pages s) of
                                    Inl e \<Rightarrow> Raise e (s, w)
                                  | Inr tp \<Rightarrow>
                                      let s = s\<lparr>total_pages := tp\<rparr> in
                                      if \<not> truthy projects_on_page \<and> py_eq_int (total_pages s) 0
                                         \<and> page_index s = 0
                                      then Break (s, w)
                                      else
                                        (case py_len projects_on_page of
                                           Inl e \<Rightarrow> Raise e (s, w)
                                         | Inr n \<Rightarrow>
                                             if n < page_size then Break (s, w)
                                             else Continue (s, w)))))
                 | Inr False \<Rightarrow>
                     (case print con [Lit ''Warning: Could not fetch projects or unexpected response structure for org '',
                                      Val org_identifier, Lit '' on page '',
                                      Val (PInt (page_index s)), Lit ''.''] w of
                        Inl e \<Rightarrow> Raise e (s, w)
                      | Inr w' \<Rightarrow> Break (s, w')))
              of
                Continue (s, w) \<Rightarrow>
                  let s = s\<lparr>page_index := page_index s + 1\<rparr> in
                  (case py_int_ge (page_index s) (total_pages s) of
                     Inl e \<Rightarrow> Raise e (s, w)
                   | Inr True \<Rightarrow> Break (s, w)
                   | Inr False \<Rightarrow> Continue (s, w))
              | Break sw' \<Rightarrow> Break sw'
              | Raise e sw' \<Rightarrow> Raise e sw'))"

text \<open>\<^verbatim>\<open>get_projects(api_base_url, headers, account_id, org_identifier)\<close>.\<close>

definition get_projects ::
  "console \<Rightarrow> server \<Rightarrow> string \<Rightarrow> (string \<times> string) list \<Rightarrow> string \<Rightarrow> pyval \<Rightarrow> world
     \<Rightarrow> ((exc + pyval list) \<times> world) option" where
  "get_projects con srv api_base_url hs account_id org_identifier w =
     (let u = api_base_url @ ''/ng/api/projects''
      in case print con [Lit ''Fetching projects for organization: '', Val org_identifier,
                         Lit ''...''] w of
           Inl e \<Rightarrow> Some (Inl e, w)
         | Inr w \<Rightarrow>
             (case py_while more_pages (get_projects_body con srv u hs account_id org_identifier)
                     (pstate0, w) of
                None \<Rightarrow> None
              | Some (Inl (e, s, w)) \<Rightarrow> Some (Inl e, w)
              | Some (Inr (s, w)) \<Rightarrow>
                  if all_items s \<noteq> [] then
                    (case print con [Lit ''Successfully fetched '',
                                     Val (PInt (int (length (all_items s)))),
                                     Lit '' projects for organization: '', Val org_identifier,
                                     Lit ''.''] w of
                       Inl e \<Rightarrow> Some (Inl e, w)
                     | Inr w \<Rightarrow> Some (Inr (all_items s), w))
                  else Some (Inr (all_items s), w)))"

text \<open>The body of the loop of \<^verbatim>\<open>get_pipelines\<close>, with \<^verbatim>\<open>all_pipelines\<close> as the list.\<close>

definition get_pipelines_body ::
  "console \<Rightarrow> server \<Rightarrow> string \<Rightarrow> (string \<times> string) list \<Rightarrow> string \<Rightarrow> pyval \<Rightarrow> pyval
     \<Rightarrow> pstate \<times> world \<Rightarrow> (pstate \<times> world) ctl" where
  "get_pipelines_body con srv u hs account_id org_identifier project_identifier sw =
     (let s = fst sw;
          page_size = 100;
          ps = [(''accountIdentifier'', PStr account_id), (''orgIdentifier'', org_identifier),
                (''projectIdentifier'', project_identifier),
                (''page'', PInt (page_index s)), (''size'', PInt page_size)];
          rw = make_api_request con srv u hs (Some ps) (snd sw);
          w = snd rw
      in case fst rw of
           Inl e \<Rightarrow> Raise e (s, w)
         | Inr response_data \<Rightarrow>
             (case
                (case cond_nested response_data ''content'' of
                   Inl e \<Rightarrow> Raise e (s, w)
                 | Inr True \<Rightarrow>
                     (case nested_items response_data ''content'' of
                        Inl e \<Rightarrow> Raise e (s, w)
                      | Inr pipelines_on_page \<Rightarrow>
                          if \<not> truthy pipelines_on_page \<and> page_index s > 0 then Break (s, w)
                          else
                            (case py_iter pipelines_on_page of
                               Inl e \<Rightarrow> Raise e (s, w)
                             | Inr xs \<Rightarrow>
                                 let s = s\<lparr>all_items := all_items s @ xs\<rparr> in
                                 (case nested_total_pages response_data (total_pages s) of
                                    Inl e \<Rightarrow> Raise e (s, w)
                                  | Inr tp \<Rightarrow>
                                      let s = s\<lparr>total_pages := tp\<rparr> in
                                      if \<not> truthy pipelines_on_page \<and> py_eq_int (total_pages s) 0
                                         \<and> page_index s = 0
                                      then Break (s, w)
                                      else
                                        (case py_len pipelines_on_page of
                                           Inl e \<Rightarrow> Raise e (s, w)
                                         | Inr n \<Rightarrow>
                                             if n < page_size then Break (s, w)
                                             else Continue (s, w)))))
                 | Inr False \<Rightarrow>
                     (case print con [Lit ''Warning: Could not fetch pipelines or unexpected response structure for project '',
                                      Val project_identifier, Lit '' on page '',
                                      Val (PInt (page_index s)), Lit ''.''] w of
                        Inl e \<Rightarrow> Raise e (s, w)
                      | Inr w' \<Rightarrow> Break (s, w')))
              of
                Continue (s, w) \<Rightarrow>
                  let s = s\<lparr>page_index := page_index s + 1\<rparr> in
                  (case py_int_ge (page_index s) (total_pages s) of
                     Inl e \<Rightarrow> Raise e (s, w)
                   | Inr True \<Rightarrow> Break (s, w)
                   | Inr False \<Rightarrow> Continue (s, w))
              | Break sw' \<Rightarrow> Break sw'
              | Raise e sw' \<Rightarrow> Raise e sw'))"

text \<open>
  \<^verbatim>\<open>get_pipelines(api_base_url, headers, account_id, org_identifier, project_identifier)\<close>.
\<close>

definition get_pipelines ::
  "console \<Rightarrow> server \<Rightarrow> string \<Rightarrow> (string \<times> string) list \<Rightarrow> string \<Rightarrow> pyval \<Rightarrow> pyval \<Rightarrow> world
     \<Rightarrow> ((exc + pyval list) \<times> world) option" where
  "get_pipelines con srv api_base_url hs account_id org_identifier project_identifier w =
     (let u = api_base_url @ ''/ng/api/pipelines''
      in case print con [Lit ''Fetching pipelines for project: '', Val project_identifier,
                         Lit '' in org: '', Val org_identifier, Lit ''...''] w of
           Inl e \<Rightarrow> Some (Inl e, w)
         | Inr w \<Rightarrow>
             (case py_while more_pages
                     (get_pipelines_body con srv u hs account_id org_identifier
                        project_identifier)
                     (pstate0, w) of
                None \<Rightarrow> None
              | Some (Inl (e, s, w)) \<Rightarrow> Some (Inl e, w)
              | Some (Inr (s, w)) \<Rightarrow>
                  if all_items s \<noteq> [] then
                    (case print con [Lit ''Successfully fetched '',
                                     Val (PInt (int (length (all_items s)))),
                                     Lit '' pipelines for project: '', Val project_identifier,
                                     Lit ''.''] w of
                       Inl e \<Rightarrow> Some (Inl e, w)
                     | Inr w \<Rightarrow> Some (Inr (all_items s), w))
                  else Some (Inr (all_items s), w)))"

section \<open>Pipeline count\<close>

text \<open>
  The request of \<^verbatim>\<open>get_pipeline_count\<close>: page 0 with page size 1.
\<close>

definition count_request ::
  "string \<Rightarrow> (string \<times> string) list \<Rightarrow> string \<Rightarrow> pyval \<Rightarrow> pyval \<Rightarrow> request" where
  "count_request api_base_url hs account_id org_identifier project_identifier =
     \<lparr>url = api_base_url @ ''/ng/api/pipelines'', headers = hs,
      params = [(''accountIdentifier'', PStr account_id), (''orgIdentifier'', org_identifier),
                (''projectIdentifier'', project_identifier), (''page'', PInt 0),
                (''size'', PInt 1)],
      timeout = 30\<rparr>"

text \<open>
  The last two statements of \<^verbatim>\<open>get_pipeline_count\<close>, reached when no branch returned.
\<close>

definition count_unknown ::
  "console \<Rightarrow> pyval \<Rightarrow> pyval \<Rightarrow> world \<Rightarrow> ((exc + pyval) \<times> world) option" where
  "count_unknown con project_identifier response_data w =
     (case print con [Lit ''Warning: Could not determine pipeline count for project '',
                      Val project_identifier, Lit ''. Response: '', Val response_data] w of
        Inl e \<Rightarrow> Some (Inl e, w)
      | Inr w \<Rightarrow> Some (Inr (PInt 0), w))"

text \<open>
  \<^verbatim>\<open>get_pipeline_count(api_base_url, headers, account_id, org_identifier,
  project_identifier)\<close>. The value returned is a Python value: the field of the response as
  it came, or an integer.
\<close>

definition get_pipeline_count ::
  "console \<Rightarrow> server \<Rightarrow> string \<Rightarrow> (string \<times> string) list \<Rightarrow> string \<Rightarrow> pyval \<Rightarrow> pyval \<Rightarrow> world
     \<Rightarrow> ((exc + pyval) \<times> world) option" where
  "get_pipeline_count con srv api_base_url hs account_id org_identifier project_identifier w =
     (let req = count_request api_base_url hs account_id org_identifier project_identifier
      in case print con [Lit ''Fetching pipeline count for project: '', Val project_identifier,
                         Lit '' in org: '', Val org_identifier, Lit ''...''] w of
           Inl e \<Rightarrow> Some (Inl e, w)
         | Inr w \<Rightarrow>
      (let rw = make_api_request con srv (url req) hs (Some (params req)) w;
           w = snd rw
       in case fst rw of
           Inl e \<Rightarrow> Some (Inl e, w)
         | Inr response_data \<Rightarrow>
             if \<not> truthy response_data then count_unknown con project_identifier response_data w
             else
               (case py_in ''data'' response_data of
                  Inl e \<Rightarrow> Some (Inl e, w)
                | Inr False \<Rightarrow> count_unknown con project_identifier response_data w
                | Inr True \<Rightarrow>
                    (case py_getitem response_data ''data'' of
                       Inl e \<Rightarrow> Some (Inl e, w)
                     | Inr d \<Rightarrow>
                         (case py_in ''totalItems'' d of
                            Inl e \<Rightarrow> Some (Inl e, w)
                          | Inr True \<Rightarrow>
                              (case py_getitem d ''totalItems'' of
                                 Inl e \<Rightarrow> Some (Inl e, w)
                               | Inr count \<Rightarrow>
                                   (case print con [Lit ''Successfully fetched pipeline count: '',
                                                    Val count, Lit '' for project: '',
                                                    Val project_identifier, Lit ''.''] w of
                                      Inl e \<Rightarrow> Some (Inl e, w)
                                    | Inr w \<Rightarrow> Some (Inr count, w)))
                          | Inr False \<Rightarrow>
                              (case py_in ''totalElements'' d of
                                 Inl e \<Rightarrow> Some (Inl e, w)
                               | Inr True \<Rightarrow>
                                   (case py_getitem d ''totalElements'' of
                                      Inl e \<Rightarrow> Some (Inl e, w)
                                    | Inr count \<Rightarrow>
                                        (case print con [Lit ''Successfully fetched pipeline count: '',
                                                         Val count, Lit '' for project: '',
                                                         Val project_identifier, Lit ''.''] w of
                                           Inl e \<Rightarrow> Some (Inl e, w)
                                         | Inr w \<Rightarrow> Some (Inr count, w)))
                               | Inr False \<Rightarrow>
                                   (case
                                      (case py_in ''content'' d of
                                         Inl e \<Rightarrow> Inl e
                                       | Inr False \<Rightarrow> Inr False
                                       | Inr True \<Rightarrow>
                                           (case py_getitem d ''content'' of
                                              Inl e \<Rightarrow> Inl e
                                            | Inr c \<Rightarrow> Inr (is_list c)))
                                    of
                                      Inl e \<Rightarrow> Some (Inl e, w)
                                    | Inr False \<Rightarrow>
                                        count_unknown con project_identifier response_data w
                                    | Inr True \<Rightarrow>
                                        (case nested_total_pages response_data (PInt 0) of
                                           Inl e \<Rightarrow> Some (Inl e, w)
                                         | Inr tp \<Rightarrow>
                                             (case py_le_int tp 1 of
                                                Inl e \<Rightarrow> Some (Inl e, w)
                                              | Inr True \<Rightarrow>
                                                  (case
                                                     (case py_getitem d ''content'' of
                                                        Inl e \<Rightarrow> Inl e
                                                      | Inr c \<Rightarrow> py_len c)
                                                   of
                                                     Inl e \<Rightarrow> Some (Inl e, w)
                                                   | Inr count \<Rightarrow>
                                                       (case print con [Lit ''Fetched pipeline count (fallback using content length on single page): '',
                                                                        Val (PInt count), Lit '' for project: '',
                                                                        Val project_identifier, Lit ''.''] w of
                                                          Inl e \<Rightarrow> Some (Inl e, w)
                                                        | Inr w \<Rightarrow> Some (Inr (PInt count), w)))
                                              | Inr False \<Rightarrow>
                                                  (case print con [Lit ''Warning: Pipeline count metadata (totalItems/totalElements) not found for project '',
                                                                   Val project_identifier,
                                                                   Lit '', and multiple pages exist. Full pagination would be needed for exact count. Returning -1 (or consider fetching all).''] w of
                                                     Inl e \<Rightarrow> Some (Inl e, w)
                                                   | Inr w \<Rightarrow>
                                                  (case print con [Lit ''Performing full fetch for project '',
                                                                   Val project_identifier,
                                                                   Lit '' to get accurate count...''] w of
                                                     Inl e \<Rightarrow> Some (Inl e, w)
                                                   | Inr w \<Rightarrow>
                                                  (case get_pipelines con srv api_base_url hs account_id
                                                          org_identifier project_identifier w of
                                                     None \<Rightarrow> None
                                                   | Some (Inl e, w) \<Rightarrow> Some (Inl e, w)
                                                   | Some (Inr all_pipelines_list, w) \<Rightarrow>
                                                       Some (Inr (PInt (int (length all_pipelines_list))), w)))))))))))))"

section \<open>Organization lookup\<close>

text \<open>\<^verbatim>\<open>get_organizations(api_base_url, headers, account_id)\<close>: one request, two shapes.\<close>

definition get_organizations ::
  "console \<Rightarrow> server \<Rightarrow> string \<Rightarrow> (string \<times> string) list \<Rightarrow> string \<Rightarrow> world
     \<Rightarrow> (exc + pyval list) \<times> world" where
  "get_organizations con srv api_base_url hs account_id w =
     (let u = api_base_url @ ''/ng/api/organizations''
      in case print con [Lit ''Fetching organizations for account: '', Lit account_id,
                         Lit ''...''] w of
           Inl e \<Rightarrow> (Inl e, w)
         | Inr w \<Rightarrow>
      (let ps = [(''accountIdentifier'', PStr account_id)];
           rw = make_api_request con srv u hs (Some ps) w;
           w = snd rw;
           unexpected = (\<lambda>response_data.
             (case print con [Lit ''Could not fetch organizations or response format is unexpected. Response: '',
                              Val response_data] w of
                Inl e \<Rightarrow> (Inl e, w)
              | Inr w \<Rightarrow> (Inr [], w)))
       in case fst rw of
           Inl e \<Rightarrow> (Inl e, w)
         | Inr response_data \<Rightarrow>
             if \<not> truthy response_data then unexpected response_data
             else
               (case py_in ''data'' response_data of
                  Inl e \<Rightarrow> (Inl e, w)
                | Inr False \<Rightarrow> unexpected response_data
                | Inr True \<Rightarrow>
                    (case py_getitem response_data ''data'' of
                       Inl e \<Rightarrow> (Inl e, w)
                     | Inr (PList orgs) \<Rightarrow>
                         (case print con [Lit ''Successfully fetched '',
                                          Val (PInt (int (length orgs))),
                                          Lit '' organizations.''] w of
                            Inl e \<Rightarrow> (Inl e, w)
                          | Inr w \<Rightarrow> (Inr orgs, w))
                     | Inr d \<Rightarrow>
                         (case py_in ''content'' d of
                            Inl e \<Rightarrow> (Inl e, w)
                          | Inr False \<Rightarrow> unexpected response_data
                          | Inr True \<Rightarrow>
                              (case py_getitem d ''content'' of
                                 Inl e \<Rightarrow> (Inl e, w)
                               | Inr (PList orgs) \<Rightarrow>
                                   (case print con [Lit ''Successfully fetched '',
                                                    Val (PInt (int (length orgs))),
                                                    Lit '' organizations (from data.content).''] w of
                                      Inl e \<Rightarrow> (Inl e, w)
                                    | Inr w \<Rightarrow> (Inr orgs, w))
                               | Inr c \<Rightarrow> unexpected response_data))))))"

section \<open>The report file\<close>

text \<open>
  \<^verbatim>\<open>write_data_to_csv(data, filename)\<close>. Whether the file can be written is decided by the
  environment: \<open>disk filename\<close> is the exception raised while opening or writing, if any.
  What a failed write leaves in the file is not modelled. The \<^verbatim>\<open>try\<close> block ends with a
  \<^verbatim>\<open>print\<close>, so that its handlers also catch the exception of that \<^verbatim>\<open>print\<close>, the file
  being written by then; what a \<^verbatim>\<open>print\<close> outside the block or in a handler raises
  leaves the function.
\<close>

definition write_data_to_csv ::
  "console \<Rightarrow> (string \<Rightarrow> exc option) \<Rightarrow> pyval list \<Rightarrow> string \<Rightarrow> world \<Rightarrow> (exc \<times> world) + world" where
  "write_data_to_csv con disk data filename w =
     (if data = [] then
        (case print con [Lit ''No data to write to CSV.''] w of
           Inl e \<Rightarrow> Inl (e, w)
         | Inr w \<Rightarrow> Inr w)
      else
        case print con [Lit (CHR 0x0A # ''Writing data to CSV file: ''), Lit filename,
                        Lit ''...''] w of
          Inl e \<Rightarrow> Inl (e, w)
        | Inr w \<Rightarrow>
            (case
               (case disk filename of
                  None \<Rightarrow>
                    (let w = w\<lparr>files := files w @ [(filename, data)]\<rparr>
                     in case print con [Lit ''Successfully wrote '',
                                        Val (PInt (int (length data))),
                                        Lit '' records to '', Lit filename] w of
                          Inl e \<Rightarrow> Inl (e, w)
                        | Inr w \<Rightarrow> Inr w)
                | Some e \<Rightarrow> Inl (e, w))
             of
               Inr w \<Rightarrow> Inr w
             | Inl (e, w) \<Rightarrow>
                 if e = OSError then
                   (case print con [Lit ''Error writing to CSV file '', Lit filename, Lit '': '',
                                    Exc e] w of
                      Inl e' \<Rightarrow> Inl (e', w)
                    | Inr w \<Rightarrow> Inr w)
                 else
                   (case print con [Lit ''An unexpected error occurred during CSV writing: '',
                                    Exc e] w of
                      Inl e' \<Rightarrow> Inl (e', w)
                    | Inr w \<Rightarrow> Inr w)))"

definition CSV_FILENAME :: string where
  "CSV_FILENAME = ''harness_pipelines_report.csv''"

section \<open>Traversal\<close>

text \<open>
  \<^verbatim>\<open>for x in xs: b\<close>, where the body may raise or not come back; \<^verbatim>\<open>continue\<close> is the
  normal end of the body. The loops of \<^verbatim>\<open>main\<close> have no \<^verbatim>\<open>break\<close>.
\<close>

fun py_for ::
  "('a \<Rightarrow> 's \<Rightarrow> ((exc \<times> 's) + 's) option) \<Rightarrow> 'a list \<Rightarrow> 's \<Rightarrow> ((exc \<times> 's) + 's) option" where
  "py_for b [] s = Some (Inr s)"
| "py_for b (x # xs) s =
     (case b x s of
        None \<Rightarrow> None
      | Some (Inl es) \<Rightarrow> Some (Inl es)
      | Some (Inr s') \<Rightarrow> py_for b xs s')"

text \<open>The accumulators of \<^verbatim>\<open>main\<close>.\<close>

record mstate =
  all_pipeline_data :: "pyval list"
  processed_org_count :: int
  processed_project_count :: int
  processed_pipeline_count :: pyval

definition mstate0 :: mstate where
  "mstate0 = \<lparr>all_pipeline_data = [], processed_org_count = 0, processed_project_count = 0,
              processed_pipeline_count = PInt 0\<rparr>"

text \<open>\<^verbatim>\<open>entry.get(kind, {}).get(k, default)\<close>.\<close>

definition entry_field :: "pyval \<Rightarrow> string \<Rightarrow> string \<Rightarrow> pyval \<Rightarrow> exc + pyval" where
  "entry_field entry kind k dflt =
     (case py_get entry kind (PDict []) of
        Inl e \<Rightarrow> Inl e
      | Inr d \<Rightarrow> py_get d k dflt)"

text \<open>
  The body of the inner loop of \<^verbatim>\<open>main\<close>, for one entry of the project list. The row is
  the dict literal of the source.
\<close>

definition project_step ::
  "console \<Rightarrow> server \<Rightarrow> (pyval \<Rightarrow> pyval \<Rightarrow> exc + pyval) \<Rightarrow> string \<Rightarrow> (string \<times> string) list \<Rightarrow> string
     \<Rightarrow> pyval \<Rightarrow> pyval \<Rightarrow> pyval \<Rightarrow> mstate \<times> world
     \<Rightarrow> ((exc \<times> mstate \<times> world) + mstate \<times> world) option" where
  "project_step con srv fadd api_base_url hs account_id org_identifier org_name project_data mw =
     (let m = fst mw; w = snd mw
      in case entry_field project_data ''project'' ''identifier'' PNone of
           Inl e \<Rightarrow> Some (Inl (e, m, w))
         | Inr project_identifier \<Rightarrow>
             (case entry_field project_data ''project'' ''name'' project_identifier of
                Inl e \<Rightarrow> Some (Inl (e, m, w))
              | Inr project_name \<Rightarrow>
                  if \<not> truthy project_identifier then
                    (case print con [Lit ''Warning: Skipping project with missing identifier in org '',
                                     Val org_name, Lit ''. Data: '', Val project_data] w of
                       Inl e \<Rightarrow> Some (Inl (e, m, w))
                     | Inr w \<Rightarrow> Some (Inr (m, w)))
                  else
                    let m = m\<lparr>processed_project_count := processed_project_count m + 1\<rparr>
                    in case print con [Lit ''  Processing Project: '', Val project_name,
                                       Lit '' (ID: '', Val project_identifier, Lit '')''] w of
                         Inl e \<Rightarrow> Some (Inl (e, m, w))
                       | Inr w \<Rightarrow>
                    (case get_pipeline_count con srv api_base_url hs account_id org_identifier
                            project_identifier w of
                       None \<Rightarrow> None
                     | Some (Inl e, w) \<Rightarrow> Some (Inl (e, m, w))
                     | Some (Inr pipeline_count, w) \<Rightarrow>
                         let m = m\<lparr>all_pipeline_data := all_pipeline_data m @
                                      [PDict [(''Project'', project_name),
                                              (''Organization'', org_name),
                                              (''Pipeline Count'', pipeline_count)]]\<rparr>
                         in case py_add fadd (processed_pipeline_count m) pipeline_count of
                              Inl e \<Rightarrow> Some (Inl (e, m, w))
                            | Inr new_count \<Rightarrow>
                                let m = m\<lparr>processed_pipeline_count := new_count\<rparr>
                                in if py_eq_int pipeline_count 0 then
                                     (case print con [Lit ''  No pipelines found in project: '',
                                                      Val project_name, Lit ''.''] w of
                                        Inl e \<Rightarrow> Some (Inl (e, m, w))
                                      | Inr w \<Rightarrow> Some (Inr (m, w)))
                                   else
                                     (case print con [Lit ''  Found '', Val pipeline_count,
                                                      Lit '' pipelines in project: '',
                                                      Val project_name, Lit ''.''] w of
                                        Inl e \<Rightarrow> Some (Inl (e, m, w))
                                      | Inr w \<Rightarrow> Some (Inr (m, w))))))"

text \<open>
  The body of the outer loop of \<^verbatim>\<open>main\<close>, for one entry of the organization list;
  \<open>n\<close> is \<^verbatim>\<open>len(organizations)\<close>.
\<close>

definition org_step ::
  "console \<Rightarrow> server \<Rightarrow> (pyval \<Rightarrow> pyval \<Rightarrow> exc + pyval) \<Rightarrow> string \<Rightarrow> (string \<times> string) list \<Rightarrow> string
     \<Rightarrow> nat \<Rightarrow> pyval \<Rightarrow> mstate \<times> world
     \<Rightarrow> ((exc \<times> mstate \<times> world) + mstate \<times> world) option" where
  "org_step con srv fadd api_base_url hs account_id n org_data mw =
     (let m = fst mw; w = snd mw
      in case entry_field org_data ''organization'' ''identifier'' PNone of
           Inl e \<Rightarrow> Some (Inl (e, m, w))
         | Inr org_identifier \<Rightarrow>
             (case entry_field org_data ''organization'' ''name'' org_identifier of
                Inl e \<Rightarrow> Some (Inl (e, m, w))
              | Inr org_name \<Rightarrow>
                  if \<not> truthy org_identifier then
                    (case print con [Lit ''Warning: Skipping organization with missing identifier. Data: '',
                                     Val org_data] w of
                       Inl e \<Rightarrow> Some (Inl (e, m, w))
                     | Inr w \<Rightarrow> Some (Inr (m, w)))
                  else
                    let m = m\<lparr>processed_org_count := processed_org_count m + 1\<rparr>
                    in case print con [Lit (CHR 0x0A # ''Processing Organization ''),
                                       Val (PInt (processed_org_count m)), Lit ''/'',
                                       Val (PInt (int n)), Lit '': '', Val org_name,
                                       Lit '' (ID: '', Val org_identifier, Lit '')''] w of
                         Inl e \<Rightarrow> Some (Inl (e, m, w))
                       | Inr w \<Rightarrow>
                    (case get_projects con srv api_base_url hs account_id org_identifier w of
                       None \<Rightarrow> None
                     | Some (Inl e, w) \<Rightarrow> Some (Inl (e, m, w))
                     | Some (Inr projects, w) \<Rightarrow>
                         if projects = [] then
                           (case print con [Lit ''No projects found in organization: '',
                                            Val org_name, Lit ''. Skipping.''] w of
                              Inl e \<Rightarrow> Some (Inl (e, m, w))
                            | Inr w \<Rightarrow> Some (Inr (m, w)))
                         else
                           py_for (project_step con srv fadd api_base_url hs account_id
                                     org_identifier org_name)
                             projects (m, w))))"

text \<open>
  The lines of the summary at the end of \<^verbatim>\<open>main\<close>, printed one after the other until
  one of them cannot be written.
\<close>

fun print_all :: "console \<Rightarrow> message list \<Rightarrow> world \<Rightarrow> (exc \<times> world) + world" where
  "print_all con [] w = Inr w"
| "print_all con (m # ms) w =
     (case print con m w of Inl e \<Rightarrow> Inl (e, w) | Inr w' \<Rightarrow> print_all con ms w')"

text \<open>
  \<^verbatim>\<open>main()\<close>, from the point where the account identifier and the API token have been
  obtained (without them the script exits before any request). The base URL is the module
  constant \<^verbatim>\<open>HARNESS_API_BASE_URL\<close>.
\<close>

definition main ::
  "console \<Rightarrow> server \<Rightarrow> (string \<Rightarrow> exc option) \<Rightarrow> (pyval \<Rightarrow> pyval \<Rightarrow> exc + pyval) \<Rightarrow> string \<Rightarrow> string
     \<Rightarrow> string \<Rightarrow> world \<Rightarrow> ((exc \<times> mstate \<times> world) + mstate \<times> world) option" where
  "main con srv disk fadd HARNESS_API_BASE_URL account_id api_token w =
     (let m = mstate0
      in case print con [Lit ''Starting Harness pipeline export process...''] w of
           Inl e \<Rightarrow> Some (Inl (e, m, w))
         | Inr w \<Rightarrow>
      (let hs = [(''Authorization'', ''Bearer '' @ api_token), (''Harness-Account'', account_id),
                 (''Content-Type'', ''application/json'')];
           rw = get_organizations con srv HARNESS_API_BASE_URL hs account_id w;
           w = snd rw
       in case fst rw of
           Inl e \<Rightarrow> Some (Inl (e, m, w))
         | Inr organizations \<Rightarrow>
             if organizations = [] then
               (case print con [Lit ''No organizations found or failed to fetch organizations. Exiting.''] w of
                  Inl e \<Rightarrow> Some (Inl (e, m, w))
                | Inr w \<Rightarrow> Some (Inr (m, w)))
             else
               case print con [Lit (CHR 0x0A # ''Found ''),
                               Val (PInt (int (length organizations))),
                               Lit '' organizations. Processing each...''] w of
                 Inl e \<Rightarrow> Some (Inl (e, m, w))
               | Inr w \<Rightarrow>
               (case py_for (org_step con srv fadd HARNESS_API_BASE_URL hs account_id
                               (length organizations))
                       organizations (m, w) of
                  None \<Rightarrow> None
                | Some (Inl emw) \<Rightarrow> Some (Inl emw)
                | Some (Inr (m, w)) \<Rightarrow>
                    (case print_all con
                            [[Lit (CHR 0x0A # ''--- Summary ---'')],
                             [Lit ''Processed Organizations: '',
                              Val (PInt (processed_org_count m))],
                             [Lit ''Processed Projects: '',
                              Val (PInt (processed_project_count m))],
                             [Lit ''Total Pipelines Found across all processed projects: '',
                              Val (processed_pipeline_count m)]] w of
                       Inl (e, w) \<Rightarrow> Some (Inl (e, m, w))
                     | Inr w \<Rightarrow>
                         if all_pipeline_data m = [] then
                           (case print con [Lit (CHR 0x0A # ''No project data collected. CSV file will not be generated.'')] w of
                              Inl e \<Rightarrow> Some (Inl (e, m, w))
                            | Inr w \<Rightarrow> Some (Inr (m, w)))
                         else
                           (case print_all con
                                   [[Lit (CHR 0x0A # ''Pipeline data collection complete. ''),
                                     Val (PInt (int (length (all_pipeline_data m)))),
                                     Lit '' pipelines recorded.''],
                                    [Lit ''Next step: Write data to '', Lit CSV_FILENAME]] w of
                              Inl (e, w) \<Rightarrow> Some (Inl (e, m, w))
                            | Inr w \<Rightarrow>
                                (case write_data_to_csv con disk (all_pipeline_data m)
                                        CSV_FILENAME w of
                                   Inl (e, w) \<Rightarrow> Some (Inl (e, m, w))
                                 | Inr w \<Rightarrow> Some (Inr (m, w))))))))"

section \<open>Notions used in the statements\<close>

subsection \<open>Outcomes of a request\<close>

text \<open>
  The outcomes of the GET that the fetcher is specified for. A success is a response
  without an error status whose body decodes; its class is the decoded body. A failure is
  an error status, or an exception of the \<^verbatim>\<open>requests\<close> hierarchy raised by the call (a
  connection failure, a timeout, another transport error) or by the decoding of the body;
  its class is the exception. Any other outcome has no class: an exception from outside
  the hierarchy, or an \<^verbatim>\<open>HTTPError\<close> raised without a response.
\<close>

definition outcome_class :: "get_outcome \<Rightarrow> (exc + pyval) option" where
  "outcome_class out =
     (case out of
        GetRaises e \<Rightarrow>
          if is_RequestException e \<and> e \<noteq> HTTPError then Some (Inl e) else None
      | GetReturns r \<Rightarrow>
          if 400 \<le> status_code r \<and> status_code r < 600 then Some (Inl HTTPError)
          else (case json_of r of
                  Inr v \<Rightarrow> Some (Inr v)
                | Inl e \<Rightarrow> if is_RequestException e then Some (Inl e) else None))"

text \<open>
  A console on which every line can be written, and the property of being one. What the
  exporter returns is stated for such a console wherever a line is printed on the way;
  what a console that fails does to the fetcher is the matter of its own statement.
\<close>

definition accepting :: console where
  "accepting m = None"

definition writable :: "console \<Rightarrow> bool" where
  "writable con = (\<forall>m. con m = None)"

text \<open>Test servers: one answers every request with the same body, one always fails.\<close>

definition ok_response :: "pyval \<Rightarrow> get_outcome" where
  "ok_response body = GetReturns \<lparr>status_code = 200, text_of = [], json_of = Inr body\<rparr>"

definition const_server :: "get_outcome \<Rightarrow> server" where
  "const_server out = (\<lambda>n req. out)"

definition w0 :: world where
  "w0 = \<lparr>exchanges = [], printed = [], files = []\<rparr>"


subsection \<open>The probe of the pipeline count\<close>

text \<open>
  The \<^verbatim>\<open>data\<close> object of a response to the probe: defined when the request succeeds,
  the body is a JSON object and its member \<^verbatim>\<open>data\<close> is a JSON object.
\<close>

definition probe_data :: "get_outcome \<Rightarrow> (string \<times> pyval) list option" where
  "probe_data out =
     (case out of
        GetRaises e \<Rightarrow> None
      | GetReturns r \<Rightarrow>
          if 400 \<le> status_code r \<and> status_code r < 600 then None
          else (case json_of r of
                  Inr (PDict obj) \<Rightarrow>
                    (case map_of obj ''data'' of Some (PDict d) \<Rightarrow> Some d | _ \<Rightarrow> None)
                | _ \<Rightarrow> None))"

text \<open>The total that the \<^verbatim>\<open>data\<close> object reports: \<^verbatim>\<open>totalItems\<close>, else \<^verbatim>\<open>totalElements\<close>.\<close>

definition total_field :: "(string \<times> pyval) list \<Rightarrow> pyval option" where
  "total_field d =
     (case map_of d ''totalItems'' of Some v \<Rightarrow> Some v | None \<Rightarrow> map_of d ''totalElements'')"

text \<open>A pipeline count as the report expects it: an integer that is not negative.\<close>

definition is_count :: "pyval \<Rightarrow> bool" where
  "is_count v = (case v of PInt i \<Rightarrow> 0 \<le> i | _ \<Rightarrow> False)"

text \<open>The count that the fallback makes of the result of a full fetch: its length.\<close>

definition count_of_list :: "(exc + pyval list) \<times> world \<Rightarrow> (exc + pyval) \<times> world" where
  "count_of_list rw = (case fst rw of Inl e \<Rightarrow> (Inl e, snd rw) | Inr xs \<Rightarrow> (Inr (PInt (int (length xs))), snd rw))"

subsection \<open>Entries of the traversal\<close>

text \<open>
  An organization or project entry has a missing identifier when
  \<^verbatim>\<open>entry.get(kind, {}).get("identifier")\<close> is absent or empty, that is, not true as a
  Python value.
\<close>

definition missing_identifier :: "pyval \<Rightarrow> string \<Rightarrow> bool" where
  "missing_identifier entry kind =
     (case entry_field entry kind ''identifier'' PNone of
        Inl e \<Rightarrow> False
      | Inr v \<Rightarrow> \<not> truthy v)"

text \<open>The accumulators and the world at the end of a step of the traversal, raised or not.\<close>

definition final_mstate :: "((exc \<times> mstate \<times> world) + mstate \<times> world) \<Rightarrow> mstate" where
  "final_mstate r = (case r of Inl (e, m, w) \<Rightarrow> m | Inr (m, w) \<Rightarrow> m)"

definition final_world :: "((exc \<times> mstate \<times> world) + mstate \<times> world) \<Rightarrow> world" where
  "final_world r = (case r of Inl (e, m, w) \<Rightarrow> w | Inr (m, w) \<Rightarrow> w)"

text \<open>
  What the report says of an entry, read off the JSON value without the code: an entry is
  a JSON object whose member \<open>kind\<close> (\<^verbatim>\<open>"organization"\<close> or \<^verbatim>\<open>"project"\<close>), if it has one,
  is a JSON object. Its identifier is the member \<^verbatim>\<open>identifier\<close> of that object when it is
  there and not empty; its name is the member \<^verbatim>\<open>name\<close> and, without one, the identifier.
\<close>

definition entry_ok :: "string \<Rightarrow> pyval \<Rightarrow> bool" where
  "entry_ok kind entry =
     (case entry of
        PDict obj \<Rightarrow>
          (case map_of obj kind of None \<Rightarrow> True | Some (PDict d) \<Rightarrow> True | Some x \<Rightarrow> False)
      | _ \<Rightarrow> False)"

definition entry_identifier :: "string \<Rightarrow> pyval \<Rightarrow> pyval option" where
  "entry_identifier kind entry =
     (case entry of
        PDict obj \<Rightarrow>
          (case map_of obj kind of
             Some (PDict d) \<Rightarrow>
               (case map_of d ''identifier'' of
                  None \<Rightarrow> None
                | Some v \<Rightarrow> if truthy v then Some v else None)
           | _ \<Rightarrow> None)
      | _ \<Rightarrow> None)"

definition entry_name :: "string \<Rightarrow> pyval \<Rightarrow> pyval option" where
  "entry_name kind entry =
     (case entry of
        PDict obj \<Rightarrow>
          (case map_of obj kind of
             Some (PDict d) \<Rightarrow>
               (case map_of d ''name'' of None \<Rightarrow> map_of d ''identifier'' | Some nm \<Rightarrow> Some nm)
           | _ \<Rightarrow> None)
      | _ \<Rightarrow> None)"

text \<open>The project entries that have an identifier, in the order of the list.\<close>

definition identified :: "pyval list \<Rightarrow> pyval list" where
  "identified projects = filter (\<lambda>p. entry_identifier ''project'' p \<noteq> None) projects"

text \<open>
  A test server for the traversal: every answer lists one project and reports a total of
  no pipelines.
\<close>

definition one_project_server :: server where
  "one_project_server =
     const_server (ok_response (PDict [(''data'',
       PDict [(''content'',
                PList [PDict [(''project'',
                  PDict [(''identifier'', PStr ''p''), (''name'', PStr ''P'')])]]),
              (''totalItems'', PInt 0)])]))"

text \<open>A stand-in for floating-point addition in examples that add no floats.\<close>

definition no_floats :: "pyval \<Rightarrow> pyval \<Rightarrow> exc + pyval" where
  "no_floats a b = Inl OverflowError"

subsection \<open>Runs of a loop\<close>

text \<open>
  The runs of a loop, finished or not: \<open>in_run c b s0 k\<close> holds when the loop started in
  \<open>s0\<close> comes to \<open>k\<close>, which is \<open>Continue s\<close> for the state \<open>s\<close> at the head of the loop
  before a test, and \<open>Break s\<close> or \<open>Raise e s\<close> for the state in which a pass through the body
  left the loop.
\<close>

inductive in_run :: "('s \<Rightarrow> exc + bool) \<Rightarrow> ('s \<Rightarrow> 's ctl) \<Rightarrow> 's \<Rightarrow> 's ctl \<Rightarrow> bool"
  for c :: "'s \<Rightarrow> exc + bool" and b :: "'s \<Rightarrow> 's ctl" and s0 :: 's where
  start: "in_run c b s0 (Continue s0)"
| pass: "in_run c b s0 (Continue s) \<Longrightarrow> c s = Inr True \<Longrightarrow> in_run c b s0 (b s)"

fun ctl_state :: "'s ctl \<Rightarrow> 's" where
  "ctl_state (Continue s) = s"
| "ctl_state (Break s) = s"
| "ctl_state (Raise e s) = s"

text \<open>The state in which a loop ended.\<close>

definition end_state :: "(exc \<times> 's) + 's \<Rightarrow> 's" where
  "end_state r = (case r of Inl (e, s) \<Rightarrow> s | Inr s \<Rightarrow> s)"

subsection \<open>The loop bodies in blocks\<close>

text \<open>
  The three loop bodies repeat the same blocks of statements. For the proofs they are cut
  into these blocks. First as they stand in the source, the world passing through:
  \<open>take_page_in\<close> is what is done with the item list of a page, \<open>advance_in\<close> the end of
  the body (\<^verbatim>\<open>page_index += 1\<close> and the test against the total), \<open>warn\<close> the branch that
  prints the warning and leaves the loop, \<open>inline_step\<close> and \<open>generic_step\<close> what a body
  does with the result of its request. The lemmas
  \<open>get_projects_body_step\<close>, \<open>get_pipelines_body_step\<close> and \<open>fetch_body_step\<close> show that the
  bodies, as transcribed from the source, are these compositions.
\<close>

definition advance_in :: "(pstate \<times> world) ctl \<Rightarrow> (pstate \<times> world) ctl" where
  "advance_in k =
     (case k of
        Continue (s, w) \<Rightarrow>
          let s = s\<lparr>page_index := page_index s + 1\<rparr> in
          (case py_int_ge (page_index s) (total_pages s) of
             Inl e \<Rightarrow> Raise e (s, w)
           | Inr True \<Rightarrow> Break (s, w)
           | Inr False \<Rightarrow> Continue (s, w))
      | Break sw' \<Rightarrow> Break sw'
      | Raise e sw' \<Rightarrow> Raise e sw')"

definition take_page_in ::
  "pyval \<Rightarrow> (pyval \<Rightarrow> exc + pyval) \<Rightarrow> int \<Rightarrow> pstate \<Rightarrow> world \<Rightarrow> (pstate \<times> world) ctl" where
  "take_page_in items_on_page read_total page_size s w =
     (if \<not> truthy items_on_page \<and> page_index s > 0 then Break (s, w)
      else
        (case py_iter items_on_page of
           Inl e \<Rightarrow> Raise e (s, w)
         | Inr xs \<Rightarrow>
             let s = s\<lparr>all_items := all_items s @ xs\<rparr> in
             (case read_total (total_pages s) of
                Inl e \<Rightarrow> Raise e (s, w)
              | Inr tp \<Rightarrow>
                  let s = s\<lparr>total_pages := tp\<rparr> in
                  if \<not> truthy items_on_page \<and> py_eq_int (total_pages s) 0
                     \<and> page_index s = 0
                  then Break (s, w)
                  else
                    (case py_len items_on_page of
                       Inl e \<Rightarrow> Raise e (s, w)
                     | Inr n \<Rightarrow>
                         if n < page_size then Break (s, w)
                         else Continue (s, w)))))"

definition warn :: "console \<Rightarrow> message \<Rightarrow> pstate \<Rightarrow> world \<Rightarrow> (pstate \<times> world) ctl" where
  "warn con msg s w = (case print con msg w of Inl e \<Rightarrow> Raise e (s, w) | Inr w' \<Rightarrow> Break (s, w'))"

definition inline_step ::
  "console \<Rightarrow> message \<Rightarrow> pstate \<Rightarrow> (exc + pyval) \<times> world \<Rightarrow> (pstate \<times> world) ctl" where
  "inline_step con msg s rw =
     (case fst rw of
        Inl e \<Rightarrow> Raise e (s, snd rw)
      | Inr data \<Rightarrow>
          advance_in
            (case cond_nested data ''content'' of
               Inl e \<Rightarrow> Raise e (s, snd rw)
             | Inr True \<Rightarrow>
                 (case nested_items data ''content'' of
                    Inl e \<Rightarrow> Raise e (s, snd rw)
                  | Inr items_on_page \<Rightarrow>
                      take_page_in items_on_page (nested_total_pages data) 100 s (snd rw))
             | Inr False \<Rightarrow> warn con msg s (snd rw)))"

definition generic_step ::
  "console \<Rightarrow> string \<Rightarrow> int \<Rightarrow> message \<Rightarrow> pstate \<Rightarrow> (exc + pyval) \<times> world
     \<Rightarrow> (pstate \<times> world) ctl" where
  "generic_step con key_name page_size msg s rw =
     (case fst rw of
        Inl e \<Rightarrow> Raise e (s, snd rw)
      | Inr data \<Rightarrow>
          advance_in
            (case cond_nested data key_name of
               Inl e \<Rightarrow> Raise e (s, snd rw)
             | Inr True \<Rightarrow>
                 (case nested_items data key_name of
                    Inl e \<Rightarrow> Raise e (s, snd rw)
                  | Inr items_on_page \<Rightarrow>
                      take_page_in items_on_page (nested_total_pages data) page_size s (snd rw))
             | Inr False \<Rightarrow>
                 (case cond_direct data key_name of
                    Inl e \<Rightarrow> Raise e (s, snd rw)
                  | Inr True \<Rightarrow>
                      (case py_getitem data ''data'' of
                         Inl e \<Rightarrow> Raise e (s, snd rw)
                       | Inr items_on_page \<Rightarrow>
                           take_page_in items_on_page (py_get data ''totalPages'') page_size s (snd rw))
                  | Inr False \<Rightarrow> warn con msg s (snd rw))))"

text \<open>
  Then as functions of the loop variables alone, since the blocks never touch the world:
  \<open>take_page\<close> and \<open>advance\<close>; \<open>inline_page\<close> and \<open>generic_page\<close> for what a body does with
  the data it received, where \<open>Inl ()\<close> stands for the branch that prints the warning;
  \<open>on_response\<close> puts the world back.
\<close>

definition advance :: "pstate ctl \<Rightarrow> pstate ctl" where
  "advance k =
     (case k of
        Continue s \<Rightarrow>
          let s = s\<lparr>page_index := page_index s + 1\<rparr> in
          (case py_int_ge (page_index s) (total_pages s) of
             Inl e \<Rightarrow> Raise e s
           | Inr True \<Rightarrow> Break s
           | Inr False \<Rightarrow> Continue s)
      | Break s \<Rightarrow> Break s
      | Raise e s \<Rightarrow> Raise e s)"

definition take_page ::
  "pyval \<Rightarrow> (pyval \<Rightarrow> exc + pyval) \<Rightarrow> int \<Rightarrow> pstate \<Rightarrow> pstate ctl" where
  "take_page items_on_page read_total page_size s =
     (if \<not> truthy items_on_page \<and> page_index s > 0 then Break s
      else
        (case py_iter items_on_page of
           Inl e \<Rightarrow> Raise e s
         | Inr xs \<Rightarrow>
             let s = s\<lparr>all_items := all_items s @ xs\<rparr> in
             (case read_total (total_pages s) of
                Inl e \<Rightarrow> Raise e s
              | Inr tp \<Rightarrow>
                  let s = s\<lparr>total_pages := tp\<rparr> in
                  if \<not> truthy items_on_page \<and> py_eq_int (total_pages s) 0
                     \<and> page_index s = 0
                  then Break s
                  else
                    (case py_len items_on_page of
                       Inl e \<Rightarrow> Raise e s
                     | Inr n \<Rightarrow>
                         if n < page_size then Break s
                         else Continue s))))"

definition inline_page :: "pyval \<Rightarrow> pstate \<Rightarrow> unit + pstate ctl" where
  "inline_page data s =
     (case cond_nested data ''content'' of
        Inl e \<Rightarrow> Inr (Raise e s)
      | Inr True \<Rightarrow>
          (case nested_items data ''content'' of
             Inl e \<Rightarrow> Inr (Raise e s)
           | Inr items_on_page \<Rightarrow>
               Inr (advance (take_page items_on_page (nested_total_pages data) 100 s)))
      | Inr False \<Rightarrow> Inl ())"

definition generic_page :: "string \<Rightarrow> int \<Rightarrow> pyval \<Rightarrow> pstate \<Rightarrow> unit + pstate ctl" where
  "generic_page key_name page_size data s =
     (case cond_nested data key_name of
        Inl e \<Rightarrow> Inr (Raise e s)
      | Inr True \<Rightarrow>
          (case nested_items data key_name of
             Inl e \<Rightarrow> Inr (Raise e s)
           | Inr items_on_page \<Rightarrow>
               Inr (advance (take_page items_on_page (nested_total_pages data) page_size s)))
      | Inr False \<Rightarrow>
          (case cond_direct data key_name of
             Inl e \<Rightarrow> Inr (Raise e s)
           | Inr True \<Rightarrow>
               (case py_getitem data ''data'' of
                  Inl e \<Rightarrow> Inr (Raise e s)
                | Inr items_on_page \<Rightarrow>
                    Inr (advance (take_page items_on_page (py_get data ''totalPages'')
                                    page_size s)))
           | Inr False \<Rightarrow> Inl ()))"

definition on_response ::
  "console \<Rightarrow> (pyval \<Rightarrow> pstate \<Rightarrow> unit + pstate ctl) \<Rightarrow> message \<Rightarrow> pstate
     \<Rightarrow> (exc + pyval) \<times> world \<Rightarrow> (pstate \<times> world) ctl" where
  "on_response con page msg s rw =
     (case fst rw of
        Inl e \<Rightarrow> Raise e (s, snd rw)
      | Inr data \<Rightarrow>
          (case page data s of
             Inl u \<Rightarrow> warn con msg s (snd rw)
           | Inr k \<Rightarrow> map_ctl (\<lambda>s'. (s', snd rw)) k))"

subsection \<open>Responses, and loops seen from the server\<close>

text \<open>
  What \<open>make_api_request\<close> returns for an outcome of its request when its line can be
  written: the decoded body, \<^verbatim>\<open>None\<close> for a failure it reports, or the exception it lets
  through.
\<close>

definition request_result :: "get_outcome \<Rightarrow> exc + pyval" where
  "request_result out =
     (case try_get out of
        Inr v \<Rightarrow> Inr v
      | Inl (e, response) \<Rightarrow>
          if is_HTTPError e then
            (case response of None \<Rightarrow> Inl UnboundLocalError | Some r \<Rightarrow> Inr PNone)
          else if is_ConnectionError e \<or> is_Timeout e \<or> is_RequestException e then Inr PNone
          else Inl e)"

text \<open>The decoded body of a successful response.\<close>

definition response_body :: "get_outcome \<Rightarrow> pyval option" where
  "response_body out =
     (case out of
        GetRaises e \<Rightarrow> None
      | GetReturns r \<Rightarrow>
          if 400 \<le> status_code r \<and> status_code r < 600 then None
          else (case json_of r of Inl e \<Rightarrow> None | Inr v \<Rightarrow> Some v))"

text \<open>
  The bodies on which the second test of \<open>fetch_all_with_pagination\<close> is reached with a
  value that has no method \<^verbatim>\<open>get\<close>: a list or a string that is not empty and does not
  contain \<^verbatim>\<open>"data"\<close>.
\<close>

definition unguarded_body :: "get_outcome \<Rightarrow> bool" where
  "unguarded_body out =
     (case response_body out of
        None \<Rightarrow> False
      | Some v \<Rightarrow>
          (case v of
             PList xs \<Rightarrow> xs \<noteq> [] \<and> PStr ''data'' \<notin> set xs
           | PStr s \<Rightarrow> s \<noteq> [] \<and> \<not> sublist ''data'' s
           | _ \<Rightarrow> False))"

text \<open>
  A pagination loop seen from the server that answers by the number of the call alone:
  the loop variables and the number of calls made.
\<close>

definition more_pages_abs :: "pstate \<times> nat \<Rightarrow> exc + bool" where
  "more_pages_abs sn = py_int_lt (page_index (fst sn)) (total_pages (fst sn))"

definition body_abs ::
  "(pyval \<Rightarrow> pstate \<Rightarrow> unit + pstate ctl) \<Rightarrow> (nat \<Rightarrow> get_outcome) \<Rightarrow> pstate \<times> nat
     \<Rightarrow> (pstate \<times> nat) ctl" where
  "body_abs page resp sn =
     (case request_result (resp (snd sn)) of
        Inl e \<Rightarrow> Raise e (fst sn, Suc (snd sn))
      | Inr data \<Rightarrow>
          (case page data (fst sn) of
             Inl u \<Rightarrow> Break (fst sn, Suc (snd sn))
           | Inr k \<Rightarrow> map_ctl (\<lambda>s'. (s', Suc (snd sn))) k))"

definition calls_made :: "pstate \<times> world \<Rightarrow> pstate \<times> nat" where
  "calls_made sw = (fst sw, length (exchanges (snd sw)))"

definition items_of :: "(exc \<times> pstate \<times> 'w) + pstate \<times> 'w \<Rightarrow> exc + pyval list" where
  "items_of r = (case r of Inl (e, s, w) \<Rightarrow> Inl e | Inr (s, w) \<Rightarrow> Inr (all_items s))"

subsection \<open>The log of a pagination loop\<close>

text \<open>The page that a request asks for.\<close>

definition requested_page :: "request \<Rightarrow> pyval option" where
  "requested_page req = map_of (params req) ''page''"

text \<open>
  The total-page count that a decoded body declares: the member \<^verbatim>\<open>totalPages\<close> of its
  \<^verbatim>\<open>data\<close> object or, when \<^verbatim>\<open>data\<close> is a list, of the body itself.
\<close>

definition declared_in :: "pyval \<Rightarrow> pyval option" where
  "declared_in body =
     (case body of
        PDict obj \<Rightarrow>
          (case map_of obj ''data'' of
             Some (PDict d) \<Rightarrow> map_of d ''totalPages''
           | Some (PList xs) \<Rightarrow> map_of obj ''totalPages''
           | _ \<Rightarrow> None)
      | _ \<Rightarrow> None)"

definition declared_total_pages :: "get_outcome \<Rightarrow> pyval option" where
  "declared_total_pages out =
     (case response_body out of None \<Rightarrow> None | Some body \<Rightarrow> declared_in body)"

text \<open>
  A request stays below the total declared by the response before it, if that response
  declares one.
\<close>

definition below_declared :: "get_outcome \<Rightarrow> request \<Rightarrow> bool" where
  "below_declared out req =
     (case declared_total_pages out of
        None \<Rightarrow> True
      | Some t \<Rightarrow>
          (case requested_page req of
             Some (PInt p) \<Rightarrow> py_int_lt p t = Inr True
           | _ \<Rightarrow> False))"

text \<open>
  The two properties of the log of a pagination loop: the requests ask for the pages
  0, 1, 2, ... in this order, and every request but the first stays below the total
  declared by the response before it.
\<close>

definition pages_in_order :: "(request \<times> get_outcome) list \<Rightarrow> bool" where
  "pages_in_order ex =
     (map (\<lambda>x. requested_page (fst x)) ex = map (\<lambda>i. Some (PInt (int i))) [0..<length ex])"

definition within_declared :: "(request \<times> get_outcome) list \<Rightarrow> bool" where
  "within_declared ex = list_all (\<lambda>(a, b). below_declared (snd a) (fst b)) (zip ex (tl ex))"

text \<open>The exchanges that a run started in the world \<open>w\<close> has added by the time of \<open>k\<close>.\<close>

definition added_exchanges :: "world \<Rightarrow> (pstate \<times> world) ctl \<Rightarrow> (request \<times> get_outcome) list" where
  "added_exchanges w k = drop (length (exchanges w)) (exchanges (snd (ctl_state k)))"

text \<open>The invariant of the log, for any loop whose body is an \<open>on_response\<close>.\<close>

definition log_invariant :: "world \<Rightarrow> (pstate \<times> world) ctl \<Rightarrow> bool" where
  "log_invariant w k =
     (\<exists>ex. exchanges (snd (ctl_state k)) = exchanges w @ ex
        \<and> pages_in_order ex \<and> within_declared ex
        \<and> (\<forall>s' w'. k = Continue (s', w') \<longrightarrow>
              page_index s' = int (length ex)
              \<and> (ex \<noteq> [] \<longrightarrow>
                   (\<forall>t. declared_total_pages (snd (last ex)) = Some t \<longrightarrow> total_pages s' = t))))"

text \<open>
  A test server with two pages of pipelines or projects: page 0 is full (100 items),
  every other page has one item; both declare two pages in all.
\<close>

definition two_page_server :: server where
  "two_page_server n req =
     (if map_of (params req) ''page'' = Some (PInt 0)
      then ok_response (PDict [(''data'',
             PDict [(''content'', PList (replicate 100 (PStr ''x''))), (''totalPages'', PInt 2)])])
      else ok_response (PDict [(''data'',
             PDict [(''content'', PList [PStr ''y'']), (''totalPages'', PInt 2)])]))"

subsection \<open>Well-formed pages\<close>

text \<open>
  A well-formed page for the key \<open>key\<close> has one of two shapes. Nested: a JSON object whose
  \<^verbatim>\<open>data\<close> object holds a list under \<open>key\<close> and either no \<^verbatim>\<open>totalPages\<close> or a number.
  Direct, for the key \<^verbatim>\<open>"data_list_direct"\<close> alone: a JSON object whose \<^verbatim>\<open>data\<close> is itself
  the list, the total being the member \<^verbatim>\<open>totalPages\<close> of the object, if there is one; the
  name of the key is not one of the items (the code would take the list for a nested
  page otherwise). A page is decoded into its list and the total it declares.
\<close>

definition page_in :: "string \<Rightarrow> pyval \<Rightarrow> (pyval list \<times> pyval option) option" where
  "page_in key body =
     (case body of
        PDict obj \<Rightarrow>
          (case map_of obj ''data'' of
             Some (PDict d) \<Rightarrow>
               (case map_of d key of
                  Some (PList xs) \<Rightarrow>
                    (case map_of d ''totalPages'' of
                       None \<Rightarrow> Some (xs, None)
                     | Some t \<Rightarrow> if num_of t = None then None else Some (xs, Some t))
                | _ \<Rightarrow> None)
           | Some (PList xs) \<Rightarrow>
               if key = ''data_list_direct'' \<and> PStr key \<notin> set xs then
                 (case map_of obj ''totalPages'' of
                    None \<Rightarrow> Some (xs, None)
                  | Some t \<Rightarrow> if num_of t = None then None else Some (xs, Some t))
               else None
           | _ \<Rightarrow> None)
      | _ \<Rightarrow> None)"

definition page_of :: "string \<Rightarrow> get_outcome \<Rightarrow> (pyval list \<times> pyval option) option" where
  "page_of key out = (case response_body out of None \<Rightarrow> None | Some body \<Rightarrow> page_in key body)"

definition page_items :: "string \<Rightarrow> get_outcome \<Rightarrow> pyval list" where
  "page_items key out = (case page_of key out of None \<Rightarrow> [] | Some (xs, t) \<Rightarrow> xs)"

definition page_total :: "string \<Rightarrow> get_outcome \<Rightarrow> pyval option" where
  "page_total key out = (case page_of key out of None \<Rightarrow> None | Some (xs, t) \<Rightarrow> t)"

text \<open>
  The value of \<^verbatim>\<open>total_pages\<close> after the pages 0 to \<open>k\<close>: the total that the latest of them
  declared, and the initial 1 if none did.
\<close>

primrec carried :: "(nat \<Rightarrow> pyval option) \<Rightarrow> nat \<Rightarrow> pyval" where
  "carried tot 0 = (case tot 0 of None \<Rightarrow> PInt 1 | Some t \<Rightarrow> t)"
| "carried tot (Suc k) = (case tot (Suc k) of None \<Rightarrow> carried tot k | Some t \<Rightarrow> t)"

text \<open>
  The answers that a pagination loop gets, when it starts after \<open>n0\<close> calls and asks for
  page \<open>i\<close> with the request \<open>rq i\<close>.
\<close>

definition served :: "server \<Rightarrow> (int \<Rightarrow> request) \<Rightarrow> nat \<Rightarrow> nat \<Rightarrow> get_outcome" where
  "served srv rq n0 i = srv (n0 + i) (rq (int i))"

text \<open>
  Page \<open>k\<close> is a last page when it is short (fewer items than the page size) or when the
  next index is not below the total carried after it.
\<close>

definition last_page :: "int \<Rightarrow> string \<Rightarrow> (nat \<Rightarrow> get_outcome) \<Rightarrow> nat \<Rightarrow> bool" where
  "last_page sz key resp k =
     (int (length (page_items key (resp k))) < sz
      \<or> py_int_lt (int k + 1) (carried (\<lambda>i. page_total key (resp i)) k) \<noteq> Inr True)"

text \<open>
  The pages 0 to \<open>k\<close> are well formed and \<open>k\<close> is the first last page among them.
\<close>

definition ends_at :: "int \<Rightarrow> string \<Rightarrow> (nat \<Rightarrow> get_outcome) \<Rightarrow> nat \<Rightarrow> bool" where
  "ends_at sz key resp k =
     (list_all (\<lambda>i. page_of key (resp i) \<noteq> None) [0..<Suc k]
      \<and> last_page sz key resp k
      \<and> list_all (\<lambda>j. \<not> last_page sz key resp j) [0..<k])"

text \<open>The item lists of the pages 0 to \<open>k\<close>, and the exchanges that fetch them.\<close>

definition pages_upto :: "string \<Rightarrow> (nat \<Rightarrow> get_outcome) \<Rightarrow> nat \<Rightarrow> pyval list list" where
  "pages_upto key resp k = map (\<lambda>i. page_items key (resp i)) [0..<Suc k]"

definition exchanges_upto ::
  "(int \<Rightarrow> request) \<Rightarrow> (nat \<Rightarrow> get_outcome) \<Rightarrow> nat \<Rightarrow> (request \<times> get_outcome) list" where
  "exchanges_upto rq resp k = map (\<lambda>i. (rq (int i), resp i)) [0..<Suc k]"

text \<open>The requests of the three loops for page \<open>p\<close>.\<close>

definition fetch_request ::
  "string \<Rightarrow> (string \<times> string) list \<Rightarrow> string \<Rightarrow> int \<Rightarrow> int \<Rightarrow> request" where
  "fetch_request u hs account_id page_size p =
     \<lparr>url = u, headers = hs,
      params = [(''accountIdentifier'', PStr account_id), (''page'', PInt p),
                (''size'', PInt page_size)],
      timeout = 30\<rparr>"

definition projects_request ::
  "string \<Rightarrow> (string \<times> string) list \<Rightarrow> string \<Rightarrow> pyval \<Rightarrow> int \<Rightarrow> request" where
  "projects_request api_base_url hs account_id org_identifier p =
     \<lparr>url = api_base_url @ ''/ng/api/projects'', headers = hs,
      params = [(''accountIdentifier'', PStr account_id), (''orgIdentifier'', org_identifier),
                (''page'', PInt p), (''size'', PInt 100)],
      timeout = 30\<rparr>"

definition pipelines_request ::
  "string \<Rightarrow> (string \<times> string) list \<Rightarrow> string \<Rightarrow> pyval \<Rightarrow> pyval \<Rightarrow> int \<Rightarrow> request" where
  "pipelines_request api_base_url hs account_id org_identifier project_identifier p =
     \<lparr>url = api_base_url @ ''/ng/api/pipelines'', headers = hs,
      params = [(''accountIdentifier'', PStr account_id), (''orgIdentifier'', org_identifier),
                (''projectIdentifier'', project_identifier), (''page'', PInt p),
                (''size'', PInt 100)],
      timeout = 30\<rparr>"

text \<open>What a loop body does with a well-formed page.\<close>

definition page_step :: "int \<Rightarrow> pyval list \<Rightarrow> pyval option \<Rightarrow> pstate \<Rightarrow> pstate ctl" where
  "page_step sz xs t s =
     advance (take_page (PList xs) (\<lambda>tp. Inr (case t of None \<Rightarrow> tp | Some t' \<Rightarrow> t')) sz s)"

text \<open>
  A test server with two pages in the direct shape: page 0 is full, every other page has
  one item; both declare two pages in all.
\<close>

definition direct_page_server :: server where
  "direct_page_server n req =
     (if map_of (params req) ''page'' = Some (PInt 0)
      then ok_response (PDict [(''data'', PList (replicate 100 (PStr ''x''))),
                               (''totalPages'', PInt 2)])
      else ok_response (PDict [(''data'', PList [PStr ''y'']), (''totalPages'', PInt 2)]))"

text \<open>
  A test server without totals: it answers the probe (page size 1) with one item and three
  pages declared, and a full fetch with the pages 0 and 1 full (100 items) and page 2 of
  five items, three pages declared.
\<close>

definition three_page_server :: server where
  "three_page_server n req =
     (if map_of (params req) ''size'' = Some (PInt 1)
      then ok_response (PDict [(''data'',
             PDict [(''content'', PList [PStr ''x'']), (''totalPages'', PInt 3)])])
      else if map_of (params req) ''page'' = Some (PInt 2)
      then ok_response (PDict [(''data'',
             PDict [(''content'', PList (replicate 5 (PStr ''z''))), (''totalPages'', PInt 3)])])
      else ok_response (PDict [(''data'',
             PDict [(''content'', PList (replicate 100 (PStr ''x''))), (''totalPages'', PInt 3)])]))"

text \<open>
  A test server that never sends a last page: every page is full, and the answer to call
  number \<open>n\<close> declares \<open>n + 2\<close> pages.
\<close>

definition growing_server :: server where
  "growing_server n req =
     ok_response (PDict [(''data'',
       PDict [(''content'', PList (replicate 100 (PStr ''x''))),
              (''totalPages'', PInt (int n + 2))])])"

section \<open>Properties of the fetcher\<close>

lemma written_exchanges [simp]: "exchanges (written m w) = exchanges w"
  by (simp add: written_def)

lemma written_printed [simp]: "printed (written m w) = printed w @ [m]"
  by (simp add: written_def)

lemma written_files [simp]: "files (written m w) = files w"
  by (simp add: written_def)

lemma print_writable: "writable con \<Longrightarrow> print con m w = Inr (written m w)"
  by (simp add: print_def writable_def)

lemma writable_accepting [simp]: "writable accepting"
  by (simp add: writable_def accepting_def)

lemma print_accepting [simp]: "print accepting m w = Inr (written m w)"
  by (simp add: print_writable)

lemma make_api_request_success:
  assumes "srv (length (exchanges w))
             \<lparr>url = u, headers = hs, params = (case ps of None \<Rightarrow> [] | Some p \<Rightarrow> p),
              timeout = 30\<rparr> = GetReturns r"
    and "\<not> (400 \<le> status_code r \<and> status_code r < 600)"
    and "json_of r = Inr v"
  shows "make_api_request con srv u hs ps w =
           (Inr v, w\<lparr>exchanges := exchanges w @
              [(\<lparr>url = u, headers = hs, params = (case ps of None \<Rightarrow> [] | Some p \<Rightarrow> p),
                 timeout = 30\<rparr>, GetReturns r)]\<rparr>)"
  using assms by (auto simp: make_api_request_def try_get_def raise_for_status_def Let_def)

lemma make_api_request_reports:
  assumes "try_get out = Inl (e, response)" and "is_RequestException e"
    and "e = HTTPError \<longrightarrow> response \<noteq> None"
    and "req = \<lparr>url = u, headers = hs, params = (case ps of None \<Rightarrow> [] | Some p \<Rightarrow> p),
                  timeout = 30\<rparr>"
    and "srv (length (exchanges w)) req = out"
  shows "\<exists>m. Exc e \<in> set m \<and>
           make_api_request con srv u hs ps w =
             (case con m of
                None \<Rightarrow> (Inr PNone, written m (w\<lparr>exchanges := exchanges w @ [(req, out)]\<rparr>))
              | Some e' \<Rightarrow> (Inl e', w\<lparr>exchanges := exchanges w @ [(req, out)]\<rparr>))"
proof -
  consider (http) r where "e = HTTPError" "response = Some r"
    | (conn) "e \<noteq> HTTPError" "is_ConnectionError e"
    | (tmo) "e \<noteq> HTTPError" "\<not> is_ConnectionError e" "is_Timeout e"
    | (other) "e \<noteq> HTTPError" "\<not> is_ConnectionError e" "\<not> is_Timeout e"
    using assms(3) by (cases response) auto
  then show ?thesis
  proof cases
    case http
    show ?thesis
      using assms(1,4,5) http
      by (intro exI[of _ "[Lit ''HTTP error occurred: '', Exc e, Lit '' - '', Lit (text_of r)]"])
         (auto simp: make_api_request_def Let_def is_HTTPError_def print_def
           split: option.splits)
  next
    case conn
    show ?thesis
      using assms(1,4,5) conn
      by (intro exI[of _ "[Lit ''Connection error occurred: '', Exc e]"])
         (auto simp: make_api_request_def Let_def is_HTTPError_def print_def
           split: option.splits)
  next
    case tmo
    show ?thesis
      using assms(1,4,5) tmo
      by (intro exI[of _ "[Lit ''Timeout error occurred: '', Exc e]"])
         (auto simp: make_api_request_def Let_def is_HTTPError_def print_def
           split: option.splits)
  next
    case other
    show ?thesis
      using assms(1,2,4,5) other
      by (intro exI[of _ "[Lit ''An unexpected error occurred: '', Exc e]"])
         (auto simp: make_api_request_def Let_def is_HTTPError_def print_def
           split: option.splits)
  qed
qed

lemma make_api_request_lets_through:
  assumes "try_get out = Inl (e, response)"
    and "\<not> is_RequestException e \<or> (e = HTTPError \<and> response = None)"
    and "req = \<lparr>url = u, headers = hs, params = (case ps of None \<Rightarrow> [] | Some p \<Rightarrow> p),
                  timeout = 30\<rparr>"
    and "srv (length (exchanges w)) req = out"
  shows "\<exists>e'. make_api_request con srv u hs ps w =
           (Inl e', w\<lparr>exchanges := exchanges w @ [(req, out)]\<rparr>)"
  using assms
  by (auto simp: make_api_request_def Let_def is_HTTPError_def is_ConnectionError_def
      is_Timeout_def is_RequestException_def)

text \<open>
  C8, as the claim states it, fails. A response with status 200 whose body is not JSON
  makes \<^verbatim>\<open>response.json()\<close> raise; where that exception is a plain \<^verbatim>\<open>ValueError\<close> (the
  decoder's own error class), no clause of \<open>make_api_request\<close> catches it, and it reaches
  the caller although every line can be written.
\<close>

theorem make_api_request_raises_counterexample:
  "make_api_request accepting
     (const_server (GetReturns \<lparr>status_code = 200, text_of = ''<html>'', json_of = Inl ValueError\<rparr>))
     ''u'' [] None w0 =
   (Inl ValueError,
    w0\<lparr>exchanges := [(\<lparr>url = ''u'', headers = [], params = [], timeout = 30\<rparr>,
                       GetReturns \<lparr>status_code = 200, text_of = ''<html>'',
                                   json_of = Inl ValueError\<rparr>)]\<rparr>)"
  by (simp add: make_api_request_def try_get_def raise_for_status_def const_server_def w0_def
      Let_def is_HTTPError_def is_ConnectionError_def is_Timeout_def is_RequestException_def)

text \<open>
  It fails in a second way: the line that reports a failure is printed inside the
  \<^verbatim>\<open>except\<close> clause, and when standard output cannot take it (the text of the response
  has a character outside its encoding, say) the exception of \<^verbatim>\<open>print\<close> leaves the
  function.
\<close>

lemma make_api_request_print_raises:
  "make_api_request (\<lambda>m. Some UnicodeEncodeError)
     (const_server (GetReturns \<lparr>status_code = 500, text_of = ''oops'', json_of = Inr PNone\<rparr>))
     ''u'' [] None w0 =
   (Inl UnicodeEncodeError,
    w0\<lparr>exchanges := [(\<lparr>url = ''u'', headers = [], params = [], timeout = 30\<rparr>,
                       GetReturns \<lparr>status_code = 500, text_of = ''oops'',
                                   json_of = Inr PNone\<rparr>)]\<rparr>)"
  by (simp add: make_api_request_def try_get_def raise_for_status_def const_server_def w0_def
      Let_def is_HTTPError_def print_def)

text \<open>
  C8, as the code has it. Whatever the URL, headers and parameters, \<open>make_api_request\<close>
  makes exactly one request, and what it does then is decided by the outcome of the
  request and by the console. On a success it returns the decoded body and prints
  nothing. On a failure it is specified for (an HTTP error status, a connection failure,
  a timeout, another exception of the \<^verbatim>\<open>requests\<close> library) it prints one line that names
  the exception and returns \<^verbatim>\<open>None\<close>, unless the line cannot be written: then the
  exception of the console is raised. On any other outcome it raises.
\<close>

theorem make_api_request_raises_only_unhandled:
  assumes "req = \<lparr>url = u, headers = hs, params = (case ps of None \<Rightarrow> [] | Some p \<Rightarrow> p),
                  timeout = 30\<rparr>"
    and "srv (length (exchanges w)) req = out"
  shows "case outcome_class out of
           Some (Inr body) \<Rightarrow>
             make_api_request con srv u hs ps w =
               (Inr body, w\<lparr>exchanges := exchanges w @ [(req, out)]\<rparr>)
         | Some (Inl e) \<Rightarrow>
             (\<exists>m. Exc e \<in> set m \<and>
                make_api_request con srv u hs ps w =
                  (case con m of
                     None \<Rightarrow> (Inr PNone, written m (w\<lparr>exchanges := exchanges w @ [(req, out)]\<rparr>))
                   | Some e' \<Rightarrow> (Inl e', w\<lparr>exchanges := exchanges w @ [(req, out)]\<rparr>)))
         | None \<Rightarrow>
             (\<exists>e. make_api_request con srv u hs ps w =
                (Inl e, w\<lparr>exchanges := exchanges w @ [(req, out)]\<rparr>))"
proof (cases out)
  case (GetRaises e)
  have tg: "try_get out = Inl (e, None)" using GetRaises by (simp add: try_get_def)
  show ?thesis
  proof (cases "is_RequestException e \<and> e \<noteq> HTTPError")
    case True
    then have "outcome_class out = Some (Inl e)" using GetRaises by (simp add: outcome_class_def)
    moreover from True have "is_RequestException e" "e = HTTPError \<longrightarrow> None \<noteq> (None :: http_response option)"
      by simp_all
    note make_api_request_reports[where srv = srv and w = w and con = con, OF tg this assms]
    ultimately show ?thesis by simp
  next
    case False
    then have "outcome_class out = None" using GetRaises by (auto simp: outcome_class_def)
    moreover from False have "\<not> is_RequestException e \<or> (e = HTTPError \<and> None = (None :: http_response option))"
      by auto
    note make_api_request_lets_through[where srv = srv and w = w and con = con, OF tg this assms]
    ultimately show ?thesis by simp
  qed
next
  case (GetReturns r)
  show ?thesis
  proof (cases "400 \<le> status_code r \<and> status_code r < 600")
    case True
    then have tg: "try_get out = Inl (HTTPError, Some r)"
      using GetReturns by (simp add: try_get_def raise_for_status_def)
    have "outcome_class out = Some (Inl HTTPError)"
      using GetReturns True by (simp add: outcome_class_def)
    moreover have "is_RequestException HTTPError" "HTTPError = HTTPError \<longrightarrow> Some r \<noteq> None"
      by (simp_all add: is_RequestException_def)
    note make_api_request_reports[where srv = srv and w = w and con = con, OF tg this assms]
    ultimately show ?thesis by simp
  next
    case False
    show ?thesis
    proof (cases "json_of r")
      case (Inr body)
      have "outcome_class out = Some (Inr body)"
        using GetReturns False Inr by (auto simp: outcome_class_def)
      moreover from make_api_request_success[of srv w u hs ps r body con] assms GetReturns False Inr
      have "make_api_request con srv u hs ps w =
              (Inr body, w\<lparr>exchanges := exchanges w @ [(req, out)]\<rparr>)"
        by simp
      ultimately show ?thesis by simp
    next
      case (Inl e)
      then have tg: "try_get out = Inl (e, Some r)"
        using GetReturns False by (auto simp: try_get_def raise_for_status_def)
      show ?thesis
      proof (cases "is_RequestException e")
        case True
        then have "outcome_class out = Some (Inl e)"
          using GetReturns False Inl by (auto simp: outcome_class_def)
        moreover have "e = HTTPError \<longrightarrow> Some r \<noteq> None" by simp
        note make_api_request_reports[where srv = srv and w = w and con = con, OF tg True this assms]
        ultimately show ?thesis by simp
      next
        case nr: False
        then have "outcome_class out = None"
          using GetReturns False Inl by (auto simp: outcome_class_def)
        moreover from nr have "\<not> is_RequestException e \<or> (e = HTTPError \<and> Some r = None)" by simp
        note make_api_request_lets_through[where srv = srv and w = w and con = con, OF tg this assms]
        ultimately show ?thesis by simp
      qed
    qed
  qed
qed

theorem make_api_request_raises_only_unhandled_witness:
  "(\<exists>m. Exc ReadTimeout \<in> set m \<and>
      make_api_request accepting (const_server (GetRaises ReadTimeout)) ''u'' [] None w0 =
        (Inr PNone,
         written m (w0\<lparr>exchanges := [(\<lparr>url = ''u'', headers = [], params = [], timeout = 30\<rparr>,
                                        GetRaises ReadTimeout)]\<rparr>)))
   \<and> make_api_request accepting (const_server (ok_response (PInt 7))) ''u'' [] None w0 =
        (Inr (PInt 7),
         w0\<lparr>exchanges := [(\<lparr>url = ''u'', headers = [], params = [], timeout = 30\<rparr>,
                            ok_response (PInt 7))]\<rparr>)
   \<and> (\<exists>e. make_api_request accepting (const_server (GetRaises KeyError)) ''u'' [] None w0 =
        (Inl e,
         w0\<lparr>exchanges := [(\<lparr>url = ''u'', headers = [], params = [], timeout = 30\<rparr>,
                            GetRaises KeyError)]\<rparr>))"
  using make_api_request_raises_only_unhandled
          [where req = "\<lparr>url = ''u'', headers = [], params = [], timeout = 30\<rparr>"
             and u = "''u''" and hs = "[]" and ps = None and out = "GetRaises ReadTimeout"
             and srv = "const_server (GetRaises ReadTimeout)" and w = w0 and con = accepting]
        make_api_request_raises_only_unhandled
          [where req = "\<lparr>url = ''u'', headers = [], params = [], timeout = 30\<rparr>"
             and u = "''u''" and hs = "[]" and ps = None and out = "ok_response (PInt 7)"
             and srv = "const_server (ok_response (PInt 7))" and w = w0 and con = accepting]
        make_api_request_raises_only_unhandled
          [where req = "\<lparr>url = ''u'', headers = [], params = [], timeout = 30\<rparr>"
             and u = "''u''" and hs = "[]" and ps = None and out = "GetRaises KeyError"
             and srv = "const_server (GetRaises KeyError)" and w = w0 and con = accepting]
  by (simp add: outcome_class_def const_server_def ok_response_def w0_def
      is_RequestException_def accepting_def)

section \<open>Properties of the pipeline count\<close>

lemma probe_dataD:
  assumes "probe_data out = Some d"
  obtains r obj where "out = GetReturns r" "\<not> (400 \<le> status_code r \<and> status_code r < 600)"
    "json_of r = Inr (PDict obj)" "map_of obj ''data'' = Some (PDict d)"
  using assms
  by (auto simp: probe_data_def split: get_outcome.splits if_splits sum.splits pyval.splits option.splits)

lemma make_api_request_probe:
  assumes "probe_data (srv (length (exchanges w)) \<lparr>url = u, headers = hs, params = ps, timeout = 30\<rparr>) = Some d"
  shows "\<exists>obj. map_of obj ''data'' = Some (PDict d) \<and> make_api_request con srv u hs (Some ps) w =
           (Inr (PDict obj), w\<lparr>exchanges := exchanges w @
              [(\<lparr>url = u, headers = hs, params = ps, timeout = 30\<rparr>,
                srv (length (exchanges w)) \<lparr>url = u, headers = hs, params = ps, timeout = 30\<rparr>)]\<rparr>)"
proof -
  from assms obtain r obj where *: "srv (length (exchanges w)) \<lparr>url = u, headers = hs, params = ps, timeout = 30\<rparr> = GetReturns r"
     "\<not> (400 \<le> status_code r \<and> status_code r < 600)"
    "json_of r = Inr (PDict obj)" "map_of obj ''data'' = Some (PDict d)"
    by (rule probe_dataD)
  have "make_api_request con srv u hs (Some ps) w = (Inr (PDict obj), w\<lparr>exchanges := exchanges w @
              [(\<lparr>url = u, headers = hs, params = ps, timeout = 30\<rparr>, GetReturns r)]\<rparr>)"
    using make_api_request_success[where srv = srv and w = w and u = u and hs = hs
            and ps = "Some ps" and r = r and v = "PDict obj" and con = con] * by simp
  with * show ?thesis by auto
qed

lemma make_api_request_value:
  assumes "make_api_request con srv u hs (Some ps) w = (Inr v, w')" and "v \<noteq> PNone"
  shows "\<exists>r. srv (length (exchanges w)) \<lparr>url = u, headers = hs, params = ps, timeout = 30\<rparr> = GetReturns r
           \<and> \<not> (400 \<le> status_code r \<and> status_code r < 600) \<and> json_of r = Inr v"
  using assms
  by (auto simp: make_api_request_def try_get_def raise_for_status_def Let_def print_def
      split: get_outcome.splits sum.splits if_splits option.splits)

lemma py_getitem_Inr: "py_getitem x k = Inr v \<Longrightarrow> \<exists>kvs. x = PDict kvs \<and> map_of kvs k = Some v"
  by (cases x) (auto split: option.splits)

lemma count_probe:
  assumes "probe_data (srv (length (exchanges w)) (count_request base hs acc org proj)) = Some d"
  shows "\<exists>obj w1. map_of obj ''data'' = Some (PDict d)
           \<and> exchanges w1 = exchanges w @ [(count_request base hs acc org proj,
                 srv (length (exchanges w)) (count_request base hs acc org proj))]
           \<and> make_api_request con srv (base @ ''/ng/api/pipelines'') hs
                 (Some (params (count_request base hs acc org proj)))
                 (written [Lit ''Fetching pipeline count for project: '', Val proj,
                     Lit '' in org: '', Val org, Lit ''...''] w) = (Inr (PDict obj), w1)"
proof -
  let ?w = "written [Lit ''Fetching pipeline count for project: '', Val proj,
                     Lit '' in org: '', Val org, Lit ''...''] w"
  have "probe_data (srv (length (exchanges ?w)) \<lparr>url = base @ ''/ng/api/pipelines'', headers = hs, params = params (count_request base hs acc org proj), timeout = 30\<rparr>) = Some d"
    using assms by (simp add: count_request_def)
  from make_api_request_probe[where srv = srv and w = ?w and con = con
         and u = "base @ ''/ng/api/pipelines''" and hs = hs
         and ps = "params (count_request base hs acc org proj)" and d = d, OF this]
  show ?thesis by (auto simp: count_request_def)
qed

lemma count_dict:
  assumes wr: "writable con"
    and rw: "make_api_request con srv (base @ ''/ng/api/pipelines'') hs
                 (Some (params (count_request base hs acc org proj)))
                 (written [Lit ''Fetching pipeline count for project: '', Val proj,
                     Lit '' in org: '', Val org, Lit ''...''] w) = (Inr (PDict obj), w1)"
    and obj: "map_of obj ''data'' = Some (PDict d)"
  shows "case total_field d of
           Some v \<Rightarrow> \<exists>w'. get_pipeline_count con srv base hs acc org proj w = Some (Inr v, w')
                          \<and> exchanges w' = exchanges w1
         | None \<Rightarrow>
            (case map_of d ''content'' of
               Some (PList xs) \<Rightarrow>
                 (case py_le_int (case map_of d ''totalPages'' of None \<Rightarrow> PInt 0 | Some t \<Rightarrow> t) 1 of
                    Inl e \<Rightarrow> get_pipeline_count con srv base hs acc org proj w = Some (Inl e, w1)
                  | Inr t \<Rightarrow>
                      if t then \<exists>w'. get_pipeline_count con srv base hs acc org proj w =
                                   Some (Inr (PInt (int (length xs))), w') \<and> exchanges w' = exchanges w1
                      else \<exists>w2. exchanges w2 = exchanges w1 \<and>
                             get_pipeline_count con srv base hs acc org proj w =
                               map_option count_of_list (get_pipelines con srv base hs acc org proj w2))
             | _ \<Rightarrow> \<exists>w'. get_pipeline_count con srv base hs acc org proj w = Some (Inr (PInt 0), w')
                          \<and> exchanges w' = exchanges w1)"
proof -
  from obj have ne: "obj \<noteq> []" by auto
    show ?thesis
  proof (cases "map_of d ''totalItems''")
    case (Some v)
    then show ?thesis using rw obj ne
      by (simp add: get_pipeline_count_def Let_def count_request_def print_writable[OF wr] total_field_def)
  next
    case ti: None
    show ?thesis
    proof (cases "map_of d ''totalElements''")
      case (Some v)
      then show ?thesis using rw obj ne ti
        by (simp add: get_pipeline_count_def Let_def count_request_def print_writable[OF wr] total_field_def)
    next
      case te: None
      have tf: "total_field d = None" using ti te by (simp add: total_field_def)
      show ?thesis
      proof (cases "map_of d ''content''")
        case None
        then show ?thesis using rw obj ne ti te tf
          by (simp add: get_pipeline_count_def Let_def count_request_def print_writable[OF wr] count_unknown_def)
      next
        case (Some c)
        show ?thesis
        proof (cases "is_list c")
          case False
          then show ?thesis using rw obj ne ti te tf Some
            by (cases c) (simp_all add: get_pipeline_count_def Let_def count_request_def print_writable[OF wr] count_unknown_def)
        next
          case True
          then obtain xs where c: "c = PList xs" by (cases c) auto
          have ntp: "nested_total_pages (PDict obj) (PInt 0) =
                       Inr (case map_of d ''totalPages'' of None \<Rightarrow> PInt 0 | Some t \<Rightarrow> t)"
            using obj by (simp add: nested_total_pages_def split: option.splits)
          show ?thesis
          proof (cases "py_le_int (case map_of d ''totalPages'' of None \<Rightarrow> PInt 0 | Some t \<Rightarrow> t) 1")
            case (Inl e)
            then show ?thesis using rw obj ne ti te tf Some c ntp
              by (simp add: get_pipeline_count_def Let_def count_request_def print_writable[OF wr])
          next
            case (Inr t)
            show ?thesis
            proof (cases t)
              case True
              then show ?thesis using rw obj ne ti te tf Some c ntp Inr
                by (simp add: get_pipeline_count_def Let_def count_request_def print_writable[OF wr])
            next
              case False
              let ?w2 = "written [Lit ''Performing full fetch for project '', Val proj,
                                Lit '' to get accurate count...'']
                          (written [Lit ''Warning: Pipeline count metadata (totalItems/totalElements) not found for project '',
                                  Val proj,
                                  Lit '', and multiple pages exist. Full pagination would be needed for exact count. Returning -1 (or consider fetching all).''] w1)"
              have "get_pipeline_count con srv base hs acc org proj w =
                      map_option count_of_list (get_pipelines con srv base hs acc org proj ?w2)"
                using rw obj ne ti te tf Some c ntp Inr False
                by (simp add: get_pipeline_count_def Let_def count_request_def print_writable[OF wr] count_of_list_def
                    split: option.splits sum.splits prod.splits)
              moreover have "exchanges ?w2 = exchanges w1" by simp
              ultimately show ?thesis using tf Some c Inr False
                by (simp del: written_exchanges) blast
            qed
          qed
        qed
      qed
    qed
  qed
qed

lemma count_unknown_returns:
  "count_unknown con proj data w = Some (Inr c, w') \<Longrightarrow> c = PInt 0"
  by (auto simp: count_unknown_def print_def split: option.splits)

lemma count_not_dict:
  assumes rw: "make_api_request con srv (base @ ''/ng/api/pipelines'') hs
                 (Some (params (count_request base hs acc org proj)))
                 (written [Lit ''Fetching pipeline count for project: '', Val proj,
                     Lit '' in org: '', Val org, Lit ''...''] w) = (Inr data, w1)"
    and nd: "\<And>obj d. data = PDict obj \<Longrightarrow> map_of obj ''data'' \<noteq> Some (PDict d)"
    and p1: "con [Lit ''Fetching pipeline count for project: '', Val proj,
                  Lit '' in org: '', Val org, Lit ''...''] = None"
    and ret: "get_pipeline_count con srv base hs acc org proj w = Some (Inr c, w')"
  shows "c = PInt 0"
proof (cases "truthy data \<and> py_in ''data'' data = Inr True")
  case False
  show ?thesis
  proof (cases "truthy data")
    case nt: False
    with rw ret p1 show ?thesis
      by (simp add: get_pipeline_count_def Let_def count_request_def print_def
            count_unknown_returns)
  next
    case t: True
    with False have "py_in ''data'' data \<noteq> Inr True" by simp
    then consider e where "py_in ''data'' data = Inl e" | "py_in ''data'' data = Inr False"
      by (cases "py_in ''data'' data") auto
    then show ?thesis
    proof cases
      case 1
      with rw ret t p1 show ?thesis
        by (simp add: get_pipeline_count_def Let_def count_request_def print_def)
    next
      case 2
      with rw ret t p1 show ?thesis
        by (simp add: get_pipeline_count_def Let_def count_request_def print_def
              count_unknown_returns)
    qed
  qed
next
  case True
  show ?thesis
  proof (cases "py_getitem data ''data''")
    case (Inl e)
    with rw ret True p1 show ?thesis
      by (simp add: get_pipeline_count_def Let_def count_request_def print_def)
  next
    case (Inr dd)
    then obtain obj where obj: "data = PDict obj" "map_of obj ''data'' = Some dd"
      by (auto dest: py_getitem_Inr)
    with nd have ndd: "\<And>d. dd \<noteq> PDict d" by auto
    show ?thesis
      using rw ret True Inr ndd p1
      by (cases dd)
         (auto simp: get_pipeline_count_def Let_def count_request_def print_def
           split: bool.splits dest: count_unknown_returns)
  qed
qed

text \<open>
  The value of a count that is returned, whatever the console: the reported total, or a
  length, or 0.
\<close>

lemma count_dict_value:
  assumes rw: "make_api_request con srv (base @ ''/ng/api/pipelines'') hs
                 (Some (params (count_request base hs acc org proj)))
                 (written [Lit ''Fetching pipeline count for project: '', Val proj,
                     Lit '' in org: '', Val org, Lit ''...''] w) = (Inr (PDict obj), w1)"
    and obj: "map_of obj ''data'' = Some (PDict d)"
    and p1: "con [Lit ''Fetching pipeline count for project: '', Val proj,
                  Lit '' in org: '', Val org, Lit ''...''] = None"
    and ret: "get_pipeline_count con srv base hs acc org proj w = Some (Inr c, w')"
  shows "total_field d = Some c \<or> (\<exists>n. c = PInt (int n))"
proof -
  from obj have ne: "obj \<noteq> []" by auto
  show ?thesis
  proof (cases "map_of d ''totalItems''")
    case (Some v)
    then show ?thesis using rw obj ne p1 ret
      by (auto simp: get_pipeline_count_def Let_def count_request_def total_field_def print_def
          split: option.splits)
  next
    case ti: None
    show ?thesis
    proof (cases "map_of d ''totalElements''")
      case (Some v)
      then show ?thesis using rw obj ne ti p1 ret
        by (auto simp: get_pipeline_count_def Let_def count_request_def total_field_def print_def
            split: option.splits)
    next
      case te: None
      show ?thesis
      proof (cases "map_of d ''content''")
        case None
        then have "c = PInt 0" using rw obj ne ti te p1 ret
          by (auto simp: get_pipeline_count_def Let_def count_request_def print_def
              dest: count_unknown_returns)
        then show ?thesis by (auto intro: exI[of _ 0])
      next
        case (Some cc)
        show ?thesis
        proof (cases "is_list cc")
          case False
          then have "c = PInt 0" using rw obj ne ti te Some p1 ret
            by (cases cc)
               (auto simp: get_pipeline_count_def Let_def count_request_def print_def
                 dest: count_unknown_returns)
          then show ?thesis by (auto intro: exI[of _ 0])
        next
          case True
          then obtain xs where c: "cc = PList xs" by (cases cc) auto
          have ntp: "nested_total_pages (PDict obj) (PInt 0) =
                       Inr (case map_of d ''totalPages'' of None \<Rightarrow> PInt 0 | Some t \<Rightarrow> t)"
            using obj by (simp add: nested_total_pages_def split: option.splits)
          show ?thesis
          proof (cases "py_le_int (case map_of d ''totalPages'' of None \<Rightarrow> PInt 0 | Some t \<Rightarrow> t) 1")
            case (Inl e)
            then show ?thesis using rw obj ne ti te Some c ntp p1 ret
              by (simp add: get_pipeline_count_def Let_def count_request_def print_def)
          next
            case (Inr t)
            show ?thesis
            proof (cases t)
              case True
              then have "c = PInt (int (length xs))" using rw obj ne ti te Some c ntp Inr p1 ret
                by (auto simp: get_pipeline_count_def Let_def count_request_def print_def
                    split: option.splits)
              then show ?thesis by blast
            next
              case False
              then show ?thesis using rw obj ne ti te Some c ntp Inr p1 ret
                by (auto simp: get_pipeline_count_def Let_def count_request_def print_def
                    split: option.splits sum.splits prod.splits)
            qed
          qed
        qed
      qed
    qed
  qed
qed

lemma gt_one_not_le: "py_int_lt 1 t = Inr True \<Longrightarrow> py_le_int t 1 = Inr False"
  by (cases "num_of t"; cases "the (num_of t)") (auto simp: py_int_lt_def py_le_int_def)

lemma count_falls_back:
  assumes "writable con"
    and "probe_data (srv (length (exchanges w)) (count_request base hs acc org proj)) = Some d"
    and "total_field d = None"
    and "map_of d ''content'' = Some (PList xs)"
    and "map_of d ''totalPages'' = Some t"
    and "py_int_lt 1 t = Inr True"
  shows "\<exists>w2. exchanges w2 = exchanges w @
                [(count_request base hs acc org proj,
                  srv (length (exchanges w)) (count_request base hs acc org proj))]
            \<and> get_pipeline_count con srv base hs acc org proj w =
                map_option count_of_list (get_pipelines con srv base hs acc org proj w2)"
proof -
  from count_probe[where srv=srv and w=w and con=con, OF assms(2)] obtain obj w1 where
    obj: "map_of obj ''data'' = Some (PDict d)" and
    ex: "exchanges w1 = exchanges w @ [(count_request base hs acc org proj,
                 srv (length (exchanges w)) (count_request base hs acc org proj))]" and
    rw: "make_api_request con srv (base @ ''/ng/api/pipelines'') hs
                 (Some (params (count_request base hs acc org proj)))
                 (written [Lit ''Fetching pipeline count for project: '', Val proj,
                     Lit '' in org: '', Val org, Lit ''...''] w) = (Inr (PDict obj), w1)"
    by blast
  from count_dict[OF assms(1) rw obj] assms(3,4,5) gt_one_not_le[OF assms(6)] ex show ?thesis
    by simp
qed

text \<open>
  C1. When the response to the probe (page 0, size 1) has a \<^verbatim>\<open>data\<close> object with a
  \<^verbatim>\<open>totalItems\<close> member, or without it but with a \<^verbatim>\<open>totalElements\<close> member,
  \<open>get_pipeline_count\<close> returns the value of that member as it is, and the probe is the
  only request made, whatever else the \<^verbatim>\<open>data\<close> object holds. The two lines that the
  function prints on the way are taken to be written.
\<close>

theorem count_from_total_field:
  assumes "writable con"
    and "probe_data (srv (length (exchanges w)) (count_request base hs acc org proj)) = Some d"
    and "total_field d = Some v"
  shows "\<exists>w'. get_pipeline_count con srv base hs acc org proj w = Some (Inr v, w')
           \<and> exchanges w' = exchanges w @
                [(count_request base hs acc org proj,
                  srv (length (exchanges w)) (count_request base hs acc org proj))]"
proof -
  from count_probe[where srv=srv and w=w and con=con, OF assms(2)] obtain obj w1 where
    obj: "map_of obj ''data'' = Some (PDict d)" and
    ex: "exchanges w1 = exchanges w @ [(count_request base hs acc org proj,
                 srv (length (exchanges w)) (count_request base hs acc org proj))]" and
    rw: "make_api_request con srv (base @ ''/ng/api/pipelines'') hs
                 (Some (params (count_request base hs acc org proj)))
                 (written [Lit ''Fetching pipeline count for project: '', Val proj,
                     Lit '' in org: '', Val org, Lit ''...''] w) = (Inr (PDict obj), w1)"
    by blast
  from count_dict[OF assms(1) rw obj] assms(3) ex show ?thesis by simp
qed

theorem count_from_total_field_witness:
  "\<exists>w'. get_pipeline_count accepting
          (const_server (ok_response (PDict [(''data'',
             PDict [(''content'', PList [PStr ''a'']), (''totalItems'', PInt 42)])])))
          ''h'' [] ''acc'' (PStr ''o'') (PStr ''p'') w0 = Some (Inr (PInt 42), w')
      \<and> exchanges w' =
          [(count_request ''h'' [] ''acc'' (PStr ''o'') (PStr ''p''),
            ok_response (PDict [(''data'',
              PDict [(''content'', PList [PStr ''a'']), (''totalItems'', PInt 42)])]))]"
  using count_from_total_field
          [where srv = "const_server (ok_response (PDict [(''data'',
                    PDict [(''content'', PList [PStr ''a'']), (''totalItems'', PInt 42)])]))"
             and con = accepting
             and w = w0 and base = "''h''" and hs = "[]" and acc = "''acc''"
             and org = "PStr ''o''" and proj = "PStr ''p''"
             and d = "[(''content'', PList [PStr ''a'']), (''totalItems'', PInt 42)]"
             and v = "PInt 42"]
  by (simp add: const_server_def ok_response_def w0_def probe_data_def total_field_def)

text \<open>
  C2. When the \<^verbatim>\<open>data\<close> object of the response to the probe has neither total, has a
  list as \<^verbatim>\<open>content\<close>, and declares no \<^verbatim>\<open>totalPages\<close> or one that is at most 1,
  \<open>get_pipeline_count\<close> returns the length of that list, and the probe is the only request
  made. The two lines that the function prints on the way are taken to be written.
\<close>

theorem count_from_single_page:
  assumes "writable con"
    and "probe_data (srv (length (exchanges w)) (count_request base hs acc org proj)) = Some d"
    and "total_field d = None"
    and "map_of d ''content'' = Some (PList xs)"
    and "case map_of d ''totalPages'' of None \<Rightarrow> True | Some t \<Rightarrow> py_le_int t 1 = Inr True"
  shows "\<exists>w'. get_pipeline_count con srv base hs acc org proj w =
                 Some (Inr (PInt (int (length xs))), w')
           \<and> exchanges w' = exchanges w @
                [(count_request base hs acc org proj,
                  srv (length (exchanges w)) (count_request base hs acc org proj))]"
proof -
  from count_probe[where srv=srv and w=w and con=con, OF assms(2)] obtain obj w1 where
    obj: "map_of obj ''data'' = Some (PDict d)" and
    ex: "exchanges w1 = exchanges w @ [(count_request base hs acc org proj,
                 srv (length (exchanges w)) (count_request base hs acc org proj))]" and
    rw: "make_api_request con srv (base @ ''/ng/api/pipelines'') hs
                 (Some (params (count_request base hs acc org proj)))
                 (written [Lit ''Fetching pipeline count for project: '', Val proj,
                     Lit '' in org: '', Val org, Lit ''...''] w) = (Inr (PDict obj), w1)"
    by blast
  have le: "py_le_int (case map_of d ''totalPages'' of None \<Rightarrow> PInt 0 | Some t \<Rightarrow> t) 1 = Inr True"
    using assms(5) by (auto simp: py_le_int_def split: option.splits)
  from count_dict[OF assms(1) rw obj] assms(3,4) le ex show ?thesis by simp
qed

theorem count_from_single_page_witness:
  "\<exists>w'. get_pipeline_count accepting
          (const_server (ok_response (PDict [(''data'',
             PDict [(''content'', PList [PStr ''a'']), (''totalPages'', PInt 1)])])))
          ''h'' [] ''acc'' (PStr ''o'') (PStr ''p'') w0 = Some (Inr (PInt 1), w')
      \<and> exchanges w' =
          [(count_request ''h'' [] ''acc'' (PStr ''o'') (PStr ''p''),
            ok_response (PDict [(''data'',
              PDict [(''content'', PList [PStr ''a'']), (''totalPages'', PInt 1)])]))]"
  using count_from_single_page
          [where srv = "const_server (ok_response (PDict [(''data'',
                    PDict [(''content'', PList [PStr ''a'']), (''totalPages'', PInt 1)])]))"
             and con = accepting
             and w = w0 and base = "''h''" and hs = "[]" and acc = "''acc''"
             and org = "PStr ''o''" and proj = "PStr ''p''"
             and d = "[(''content'', PList [PStr ''a'']), (''totalPages'', PInt 1)]"
             and xs = "[PStr ''a'']"]
  by (simp add: const_server_def ok_response_def w0_def probe_data_def total_field_def
      py_le_int_def)

text \<open>
  C9, as the code has it. The count that \<open>get_pipeline_count\<close> returns is an integer that
  is not negative whenever the total reported by the response to the probe, if there is
  one, is such an integer: a reported total is returned as it came, and every other path
  returns a length or 0.
\<close>

theorem count_is_count:
  assumes ret: "get_pipeline_count con srv base hs acc org proj w = Some (Inr c, w')"
    and tot: "case probe_data (srv (length (exchanges w)) (count_request base hs acc org proj)) of
             None \<Rightarrow> True
           | Some d \<Rightarrow> (case total_field d of None \<Rightarrow> True | Some v \<Rightarrow> is_count v)"
  shows "is_count c"
proof -
  let ?w = "written [Lit ''Fetching pipeline count for project: '', Val proj,
                     Lit '' in org: '', Val org, Lit ''...''] w"
  let ?req = "count_request base hs acc org proj"
  have p1: "con [Lit ''Fetching pipeline count for project: '', Val proj,
                 Lit '' in org: '', Val org, Lit ''...''] = None"
    using ret by (auto simp: get_pipeline_count_def Let_def print_def split: option.splits)
  obtain r w1 where rw: "make_api_request con srv (base @ ''/ng/api/pipelines'') hs (Some (params ?req)) ?w = (r, w1)"
    by (cases "make_api_request con srv (base @ ''/ng/api/pipelines'') hs (Some (params ?req)) ?w") auto
  show ?thesis
  proof (cases r)
    case (Inl e)
    with ret rw p1 show ?thesis
      by (simp add: get_pipeline_count_def Let_def count_request_def print_def)
  next
    case (Inr data)
    show ?thesis
    proof (cases "\<exists>obj d. data = PDict obj \<and> map_of obj ''data'' = Some (PDict d)")
      case False
      then have "\<And>obj d. data = PDict obj \<Longrightarrow> map_of obj ''data'' \<noteq> Some (PDict d)" by blast
      from count_not_dict[OF rw[unfolded Inr] this p1 ret] show ?thesis by (simp add: is_count_def)
    next
      case True
      then obtain obj d where obj: "data = PDict obj" "map_of obj ''data'' = Some (PDict d)" by blast
      from make_api_request_value[where con = con and srv = srv
             and u = "base @ ''/ng/api/pipelines''" and hs = hs and ps = "params ?req"
             and w = ?w and v = data and w' = w1] rw Inr obj
      obtain rr where rr: "srv (length (exchanges w)) ?req = GetReturns rr"
          "\<not> (400 \<le> status_code rr \<and> status_code rr < 600)" "json_of rr = Inr (PDict obj)"
        by (auto simp: count_request_def)
      have pd: "probe_data (srv (length (exchanges w)) ?req) = Some d"
        using rr obj by (simp add: probe_data_def)
      from count_dict_value[OF rw[unfolded Inr obj(1)] obj(2) p1 ret]
      show ?thesis
      proof
        assume "total_field d = Some c"
        with tot pd show ?thesis by simp
      next
        assume "\<exists>n. c = PInt (int n)"
        then show ?thesis by (auto simp: is_count_def)
      qed
    qed
  qed
qed

theorem count_is_count_witness:
  "\<exists>c w'. get_pipeline_count accepting
            (const_server (ok_response (PDict [(''data'',
               PDict [(''content'', PList [PStr ''a'']), (''totalPages'', PInt 1)])])))
            ''h'' [] ''acc'' (PStr ''o'') (PStr ''p'') w0 = Some (Inr c, w')
        \<and> is_count c"
proof -
  let ?srv = "const_server (ok_response (PDict [(''data'',
                PDict [(''content'', PList [PStr ''a'']), (''totalPages'', PInt 1)])]))"
  obtain c w' where ret:
    "get_pipeline_count accepting ?srv ''h'' [] ''acc'' (PStr ''o'') (PStr ''p'') w0 = Some (Inr c, w')"
    by (simp add: get_pipeline_count_def count_request_def make_api_request_def try_get_def
        raise_for_status_def const_server_def ok_response_def w0_def Let_def
        nested_total_pages_def py_le_int_def)
  have "is_count c"
    using count_is_count [OF ret]
    by (simp add: const_server_def ok_response_def probe_data_def total_field_def)
  with ret show ?thesis by blast
qed

text \<open>
  C9, as the claim states it, fails: a server that reports \<^verbatim>\<open>totalItems = -5\<close> gets
  \<open>-5\<close> as the count.
\<close>

theorem count_negative_counterexample:
  "map_option fst
     (get_pipeline_count accepting
        (const_server (ok_response (PDict [(''data'', PDict [(''totalItems'', PInt (- 5))])])))
        ''h'' [] ''acc'' (PStr ''o'') (PStr ''p'') w0) = Some (Inr (PInt (- 5)))
   \<and> \<not> is_count (PInt (- 5))"
  by (simp add: get_pipeline_count_def count_request_def make_api_request_def try_get_def
      raise_for_status_def const_server_def ok_response_def w0_def Let_def is_count_def)
section \<open>Properties of the traversal\<close>

lemma py_get_Inr: "py_get x k d = Inr v \<Longrightarrow> \<exists>kvs. x = PDict kvs"
  by (cases x) auto

lemma py_get_dict: "\<exists>v. py_get (PDict kvs) k d = Inr v"
  by (cases "map_of kvs k") auto

lemma entry_field_total:
  assumes "entry_field entry kind k a = Inr v"
  shows "\<exists>v'. entry_field entry kind k' b = Inr v'"
proof (cases "py_get entry kind (PDict [])")
  case (Inl e)
  with assms show ?thesis by (simp add: entry_field_def)
next
  case (Inr d)
  with assms have "py_get d k a = Inr v" by (simp add: entry_field_def)
  then obtain kvs where "d = PDict kvs" by (auto dest: py_get_Inr)
  with Inr py_get_dict[of kvs k' b] show ?thesis by (auto simp: entry_field_def)
qed

lemma org_step_missing:
  assumes "missing_identifier org_data ''organization''"
  shows "\<exists>r. org_step con srv fadd base hs acc n org_data (m, w) = Some r
            \<and> final_mstate r = m \<and> exchanges (final_world r) = exchanges w
            \<and> files (final_world r) = files w"
    and "writable con \<Longrightarrow>
           \<exists>w'. org_step con srv fadd base hs acc n org_data (m, w) = Some (Inr (m, w'))
             \<and> exchanges w' = exchanges w \<and> files w' = files w"
proof -
  from assms obtain v where v: "entry_field org_data ''organization'' ''identifier'' PNone = Inr v"
    "\<not> truthy v"
    by (auto simp: missing_identifier_def split: sum.splits)
  from entry_field_total[OF v(1)] obtain nm where
    "entry_field org_data ''organization'' ''name'' v = Inr nm" by blast
  with v show "\<exists>r. org_step con srv fadd base hs acc n org_data (m, w) = Some r
            \<and> final_mstate r = m \<and> exchanges (final_world r) = exchanges w
            \<and> files (final_world r) = files w"
    and "writable con \<Longrightarrow>
           \<exists>w'. org_step con srv fadd base hs acc n org_data (m, w) = Some (Inr (m, w'))
             \<and> exchanges w' = exchanges w \<and> files w' = files w"
    by (auto simp: org_step_def print_def writable_def final_mstate_def final_world_def
        split: option.splits)
qed

lemma project_step_missing:
  assumes "missing_identifier project_data ''project''"
  shows "\<exists>r. project_step con srv fadd base hs acc oid oname project_data (m, w) = Some r
            \<and> final_mstate r = m \<and> exchanges (final_world r) = exchanges w
            \<and> files (final_world r) = files w"
    and "writable con \<Longrightarrow>
           \<exists>w'. project_step con srv fadd base hs acc oid oname project_data (m, w) = Some (Inr (m, w'))
             \<and> exchanges w' = exchanges w \<and> files w' = files w"
proof -
  from assms obtain v where v: "entry_field project_data ''project'' ''identifier'' PNone = Inr v"
    "\<not> truthy v"
    by (auto simp: missing_identifier_def split: sum.splits)
  from entry_field_total[OF v(1)] obtain nm where
    "entry_field project_data ''project'' ''name'' v = Inr nm" by blast
  with v show "\<exists>r. project_step con srv fadd base hs acc oid oname project_data (m, w) = Some r
            \<and> final_mstate r = m \<and> exchanges (final_world r) = exchanges w
            \<and> files (final_world r) = files w"
    and "writable con \<Longrightarrow>
           \<exists>w'. project_step con srv fadd base hs acc oid oname project_data (m, w) =
                  Some (Inr (m, w'))
             \<and> exchanges w' = exchanges w \<and> files w' = files w"
    by (auto simp: project_step_def print_def writable_def final_mstate_def final_world_def
        split: option.splits)
qed

text \<open>
  C6. An organization entry or a project entry whose identifier is missing adds no row,
  leaves the three counters (organizations processed, projects processed, total
  pipelines) as they were and causes no request: its step of the traversal ends with the
  accumulators unchanged. The step prints its warning; when the warning can be written
  the step returns, and the loop goes on with the remaining entries from there.
\<close>

theorem missing_identifier_skipped:
  "(missing_identifier org_data ''organization'' \<longrightarrow>
      (\<exists>r. org_step con srv fadd base hs acc n org_data (m, w) = Some r
          \<and> final_mstate r = m \<and> exchanges (final_world r) = exchanges w
          \<and> files (final_world r) = files w)
      \<and> (writable con \<longrightarrow>
          (\<exists>w'. org_step con srv fadd base hs acc n org_data (m, w) = Some (Inr (m, w'))
              \<and> exchanges w' = exchanges w \<and> files w' = files w
              \<and> py_for (org_step con srv fadd base hs acc n) (org_data # orgs) (m, w) =
                 py_for (org_step con srv fadd base hs acc n) orgs (m, w'))))
   \<and> (missing_identifier project_data ''project'' \<longrightarrow>
      (\<exists>r. project_step con srv fadd base hs acc oid oname project_data (m, w) = Some r
          \<and> final_mstate r = m \<and> exchanges (final_world r) = exchanges w
          \<and> files (final_world r) = files w)
      \<and> (writable con \<longrightarrow>
          (\<exists>w'. project_step con srv fadd base hs acc oid oname project_data (m, w) =
                   Some (Inr (m, w'))
              \<and> exchanges w' = exchanges w \<and> files w' = files w
              \<and> py_for (project_step con srv fadd base hs acc oid oname)
                   (project_data # projects) (m, w) =
                 py_for (project_step con srv fadd base hs acc oid oname) projects (m, w'))))"
proof (intro conjI impI)
  assume "missing_identifier org_data ''organization''"
  from org_step_missing(1)[OF this, of con srv fadd base hs acc n m w]
  show "\<exists>r. org_step con srv fadd base hs acc n org_data (m, w) = Some r
          \<and> final_mstate r = m \<and> exchanges (final_world r) = exchanges w
          \<and> files (final_world r) = files w"
    by blast
next
  assume "missing_identifier org_data ''organization''" and "writable con"
  from org_step_missing(2)[OF this, of srv fadd base hs acc n m w]
  show "\<exists>w'. org_step con srv fadd base hs acc n org_data (m, w) = Some (Inr (m, w'))
          \<and> exchanges w' = exchanges w \<and> files w' = files w
          \<and> py_for (org_step con srv fadd base hs acc n) (org_data # orgs) (m, w) =
             py_for (org_step con srv fadd base hs acc n) orgs (m, w')"
    by auto
next
  assume "missing_identifier project_data ''project''"
  from project_step_missing(1)[OF this, of con srv fadd base hs acc oid oname m w]
  show "\<exists>r. project_step con srv fadd base hs acc oid oname project_data (m, w) = Some r
          \<and> final_mstate r = m \<and> exchanges (final_world r) = exchanges w
          \<and> files (final_world r) = files w"
    by blast
next
  assume "missing_identifier project_data ''project''" and "writable con"
  from project_step_missing(2)[OF this, of srv fadd base hs acc oid oname m w]
  show "\<exists>w'. project_step con srv fadd base hs acc oid oname project_data (m, w) =
               Some (Inr (m, w'))
          \<and> exchanges w' = exchanges w \<and> files w' = files w
          \<and> py_for (project_step con srv fadd base hs acc oid oname)
               (project_data # projects) (m, w) =
             py_for (project_step con srv fadd base hs acc oid oname) projects (m, w')"
    by auto
qed

theorem missing_identifier_skipped_witness:
  "(\<exists>w'. org_step accepting (const_server (GetRaises Timeout)) no_floats ''h'' [] ''acc'' 2
            (PDict [(''organization'', PDict [(''name'', PStr ''nameless'')])]) (mstate0, w0) =
          Some (Inr (mstate0, w'))
        \<and> exchanges w' = [] \<and> files w' = []
        \<and> py_for (org_step accepting (const_server (GetRaises Timeout)) no_floats ''h'' [] ''acc'' 2)
             [PDict [(''organization'', PDict [(''name'', PStr ''nameless'')])]] (mstate0, w0) =
           Some (Inr (mstate0, w')))
   \<and> (\<exists>w'. project_step accepting (const_server (GetRaises Timeout)) no_floats ''h'' [] ''acc''
            (PStr ''o'') (PStr ''O'')
            (PDict [(''project'', PDict [(''identifier'', PStr [])])]) (mstate0, w0) =
          Some (Inr (mstate0, w'))
        \<and> exchanges w' = [] \<and> files w' = []
        \<and> py_for (project_step accepting (const_server (GetRaises Timeout)) no_floats ''h'' [] ''acc''
                    (PStr ''o'') (PStr ''O''))
             [PDict [(''project'', PDict [(''identifier'', PStr [])])]] (mstate0, w0) =
           Some (Inr (mstate0, w')))"
  using missing_identifier_skipped
          [where org_data = "PDict [(''organization'', PDict [(''name'', PStr ''nameless'')])]"
             and project_data = "PDict [(''project'', PDict [(''identifier'', PStr [])])]"
             and srv = "const_server (GetRaises Timeout)" and fadd = no_floats
             and con = accepting
             and base = "''h''" and hs = "[]" and acc = "''acc''" and n = 2
             and m = mstate0 and w = w0 and orgs = "[]" and projects = "[]"
             and oid = "PStr ''o''" and oname = "PStr ''O''"]
  by (simp add: missing_identifier_def entry_field_def w0_def)
section \<open>Properties of the pagination loops\<close>

lemma py_while_induct [consumes 1, case_names Test_raises Exit Break Raise Continue]:
  assumes "py_while c b s = Some r"
    and "\<And>s e. c s = Inl e \<Longrightarrow> P s (Inl (e, s))"
    and "\<And>s. c s = Inr False \<Longrightarrow> P s (Inr s)"
    and "\<And>s s'. c s = Inr True \<Longrightarrow> b s = Break s' \<Longrightarrow> P s (Inr s')"
    and "\<And>s e s'. c s = Inr True \<Longrightarrow> b s = Raise e s' \<Longrightarrow> P s (Inl (e, s'))"
    and "\<And>s s' r. c s = Inr True \<Longrightarrow> b s = Continue s' \<Longrightarrow> P s' r \<Longrightarrow> P s r"
  shows "P s r"
proof -
  have "c = c \<longrightarrow> b = b \<longrightarrow> P s r"
  proof (rule py_while.raw_induct
            [where P = "\<lambda>c0 b0 s r. c0 = c \<longrightarrow> b0 = b \<longrightarrow> P s r", OF _ assms(1)])
    fix f c0 b0 s r
    assume ih: "\<And>c1 b1 s1 r1. f c1 b1 s1 = Some r1 \<Longrightarrow> c1 = c \<longrightarrow> b1 = b \<longrightarrow> P s1 r1"
      and eq: "(case c0 s of Inl e \<Rightarrow> Some (Inl (e, s))
                | Inr t \<Rightarrow> if t then case b0 s of Continue s' \<Rightarrow> f c0 b0 s'
                                 | Break s' \<Rightarrow> Some (Inr s') | Raise e s' \<Rightarrow> Some (Inl (e, s'))
                            else Some (Inr s)) = Some r"
    show "c0 = c \<longrightarrow> b0 = b \<longrightarrow> P s r"
    proof (intro impI)
      assume c0: "c0 = c" and b0: "b0 = b"
      show "P s r"
      proof (cases "c s")
        case (Inl e)
        with eq c0 have "r = Inl (e, s)" by simp
        with Inl assms(2) show ?thesis by simp
      next
        case (Inr t)
        show ?thesis
        proof (cases t)
          case False
          with eq c0 Inr have "r = Inr s" by simp
          with Inr False assms(3) show ?thesis by simp
        next
          case True
          with Inr have ct: "c s = Inr True" by simp
          show ?thesis
          proof (cases "b s")
            case (Continue s')
            with eq c0 b0 ct have "f c b s' = Some r" by simp
            from ih[OF this] have "P s' r" by simp
            with ct Continue assms(6) show ?thesis by blast
          next
            case (Break s')
            with eq c0 b0 ct have "r = Inr s'" by simp
            with ct Break assms(4) show ?thesis by blast
          next
            case (Raise e s')
            with eq c0 b0 ct have "r = Inl (e, s')" by simp
            with ct Raise assms(5) show ?thesis by blast
          qed
        qed
      qed
    qed
  qed
  then show ?thesis by simp
qed

lemma py_while_in_run_from:
  assumes "py_while c b s = Some r"
  shows "in_run c b s0 (Continue s) \<longrightarrow> (\<exists>k. in_run c b s0 k \<and> ctl_state k = end_state r)"
  using assms
proof (induction rule: py_while_induct)
  case (Test_raises s e)
  then show ?case by (auto simp: end_state_def intro: exI[of _ "Continue s"])
next
  case (Exit s)
  then show ?case by (auto simp: end_state_def intro: exI[of _ "Continue s"])
next
  case (Break s s')
  show ?case
  proof
    assume "in_run c b s0 (Continue s)"
    with Break have "in_run c b s0 (Break s')" by (metis in_run.pass)
    then show "\<exists>k. in_run c b s0 k \<and> ctl_state k = end_state (Inr s')"
      by (auto simp: end_state_def intro: exI[of _ "Break s'"])
  qed
next
  case (Raise s e s')
  show ?case
  proof
    assume "in_run c b s0 (Continue s)"
    with Raise have "in_run c b s0 (Raise e s')" by (metis in_run.pass)
    then show "\<exists>k. in_run c b s0 k \<and> ctl_state k = end_state (Inl (e, s'))"
      by (auto simp: end_state_def intro: exI[of _ "Raise e s'"])
  qed
next
  case (Continue s s' r)
  show ?case
  proof
    assume "in_run c b s0 (Continue s)"
    with Continue(1,2) have "in_run c b s0 (Continue s')" by (metis in_run.pass)
    with Continue(3) show "\<exists>k. in_run c b s0 k \<and> ctl_state k = end_state r" by simp
  qed
qed

lemma py_while_in_run:
  "py_while c b s0 = Some r \<Longrightarrow> \<exists>k. in_run c b s0 k \<and> ctl_state k = end_state r"
  using py_while_in_run_from[of c b s0 r s0] by (auto intro: in_run.start)

lemma in_run_invariant:
  assumes "in_run c b s0 k"
    and "I (Continue s0)"
    and "\<And>s. I (Continue s) \<Longrightarrow> c s = Inr True \<Longrightarrow> I (b s)"
  shows "I k"
  using assms by (induction rule: in_run.induct) auto

text \<open>Two loops that are the same loop on an abstraction of their states.\<close>

lemma py_while_abstract_forward:
  assumes "py_while c b x = Some r"
    and cc: "\<And>x. c x = c' (f x)"
    and bb: "\<And>x. c x = Inr True \<Longrightarrow> map_ctl f (b x) = b' (f x)"
  shows "py_while c' b' (f x) = Some (map_sum (apsnd f) f r)"
  using assms(1)
proof (induction rule: py_while_induct)
  case (Test_raises x e)
  with cc[of x] have "c' (f x) = Inl e" by simp
  then show ?case by (subst py_while.simps) simp
next
  case (Exit x)
  with cc[of x] have "c' (f x) = Inr False" by simp
  then show ?case by (subst py_while.simps) simp
next
  case (Break x x')
  with bb[of x] have "b' (f x) = Break (f x')" by simp
  moreover from Break cc[of x] have "c' (f x) = Inr True" by simp
  ultimately show ?case by (subst py_while.simps) simp
next
  case (Raise x e x')
  with bb[of x] have "b' (f x) = Raise e (f x')" by simp
  moreover from Raise cc[of x] have "c' (f x) = Inr True" by simp
  ultimately show ?case by (subst py_while.simps) simp
next
  case (Continue x x' r)
  with bb[of x] have "b' (f x) = Continue (f x')" by simp
  moreover from Continue cc[of x] have "c' (f x) = Inr True" by simp
  ultimately show ?case using Continue(3) by (subst py_while.simps) simp
qed

lemma py_while_abstract_backward:
  assumes "py_while c' b' y = Some r'"
    and cc: "\<And>x. c x = c' (f x)"
    and bb: "\<And>x. c x = Inr True \<Longrightarrow> map_ctl f (b x) = b' (f x)"
  shows "\<forall>x. f x = y \<longrightarrow> (\<exists>r. py_while c b x = Some r)"
  using assms(1)
proof (induction rule: py_while_induct)
  case (Test_raises y e)
  show ?case
  proof (intro allI impI)
    fix x assume "f x = y"
    with Test_raises cc[of x] have "c x = Inl e" by simp
    then show "\<exists>r. py_while c b x = Some r" by (subst py_while.simps) simp
  qed
next
  case (Exit y)
  show ?case
  proof (intro allI impI)
    fix x assume "f x = y"
    with Exit cc[of x] have "c x = Inr False" by simp
    then show "\<exists>r. py_while c b x = Some r" by (subst py_while.simps) simp
  qed
next
  case (Break y y')
  show ?case
  proof (intro allI impI)
    fix x assume fx: "f x = y"
    with Break cc[of x] have cx: "c x = Inr True" by simp
    with bb[of x] fx Break have "map_ctl f (b x) = Break y'" by simp
    then obtain x' where "b x = Break x'" by (cases "b x") auto
    with cx show "\<exists>r. py_while c b x = Some r" by (subst py_while.simps) simp
  qed
next
  case (Raise y e y')
  show ?case
  proof (intro allI impI)
    fix x assume fx: "f x = y"
    with Raise cc[of x] have cx: "c x = Inr True" by simp
    with bb[of x] fx Raise have "map_ctl f (b x) = Raise e y'" by simp
    then obtain x' where "b x = Raise e x'" by (cases "b x") auto
    with cx show "\<exists>r. py_while c b x = Some r" by (subst py_while.simps) simp
  qed
next
  case (Continue y y' r')
  show ?case
  proof (intro allI impI)
    fix x assume fx: "f x = y"
    with Continue cc[of x] have cx: "c x = Inr True" by simp
    with bb[of x] fx Continue have "map_ctl f (b x) = Continue y'" by simp
    then obtain x' where x': "b x = Continue x'" "f x' = y'" by (cases "b x") auto
    with Continue(3) obtain r where "py_while c b x' = Some r" by blast
    with cx x' show "\<exists>r. py_while c b x = Some r" by (subst py_while.simps) simp
  qed
qed

lemma py_while_abstract:
  assumes "\<And>x. c x = c' (f x)"
    and "\<And>x. c x = Inr True \<Longrightarrow> map_ctl f (b x) = b' (f x)"
  shows "py_while c' b' (f x) = map_option (map_sum (apsnd f) f) (py_while c b x)"
proof (cases "py_while c b x")
  case (Some r)
  from py_while_abstract_forward[OF Some assms] Some show ?thesis by simp
next
  case None
  have "py_while c' b' (f x) = None"
  proof (cases "py_while c' b' (f x)")
    case (Some r')
    from py_while_abstract_backward[OF Some assms] None show ?thesis by auto
  qed simp
  with None show ?thesis by simp
qed

lemma get_projects_body_step:
  "get_projects_body con srv u hs acc org (s, w) =
     inline_step con [Lit ''Warning: Could not fetch projects or unexpected response structure for org '',
                  Val org, Lit '' on page '', Val (PInt (page_index s)), Lit ''.''] s
       (make_api_request con srv u hs
          (Some [(''accountIdentifier'', PStr acc), (''orgIdentifier'', org),
                 (''page'', PInt (page_index s)), (''size'', PInt 100)]) w)"
  by (simp add: get_projects_body_def inline_step_def take_page_in_def advance_in_def warn_def
        Let_def
      cong: sum.case_cong bool.case_cong ctl.case_cong)

lemma get_pipelines_body_step:
  "get_pipelines_body con srv u hs acc org proj (s, w) =
     inline_step con [Lit ''Warning: Could not fetch pipelines or unexpected response structure for project '',
                  Val proj, Lit '' on page '', Val (PInt (page_index s)), Lit ''.''] s
       (make_api_request con srv u hs
          (Some [(''accountIdentifier'', PStr acc), (''orgIdentifier'', org),
                 (''projectIdentifier'', proj),
                 (''page'', PInt (page_index s)), (''size'', PInt 100)]) w)"
  by (simp add: get_pipelines_body_def inline_step_def take_page_in_def advance_in_def
        warn_def Let_def
      cong: sum.case_cong bool.case_cong ctl.case_cong)

lemma fetch_body_step:
  "fetch_body con srv u hs acc key_name page_size (s, w) =
     generic_step con key_name page_size
       [Lit ''Warning: Could not fetch '', Lit key_name,
        Lit '' or unexpected response structure from '', Lit u,
        Lit '' on page '', Val (PInt (page_index s)), Lit ''.''] s
       (make_api_request con srv u hs
          (Some [(''accountIdentifier'', PStr acc), (''page'', PInt (page_index s)),
                 (''size'', PInt page_size)]) w)"
  by (simp add: fetch_body_def generic_step_def take_page_in_def advance_in_def warn_def
        Let_def
      cong: sum.case_cong bool.case_cong ctl.case_cong)

lemma take_page_in_pure:
  "take_page_in items rt sz s w = map_ctl (\<lambda>s'. (s', w)) (take_page items rt sz s)"
  by (simp add: take_page_in_def take_page_def Let_def split: sum.splits)

lemma advance_in_pure:
  "advance_in (map_ctl (\<lambda>s'. (s', w)) k) = map_ctl (\<lambda>s'. (s', w)) (advance k)"
  by (cases k) (simp_all add: advance_in_def advance_def Let_def split: sum.splits bool.splits)

lemma advance_in_Raise: "advance_in (Raise e sw) = Raise e sw"
  by (simp add: advance_in_def)

lemma advance_in_Break: "advance_in (Break sw) = Break sw"
  by (simp add: advance_in_def)

lemma advance_in_warn: "advance_in (warn con msg s w) = warn con msg s w"
  by (simp add: warn_def advance_in_def split: sum.splits)

lemma inline_step_pure: "inline_step con msg s rw = on_response con inline_page msg s rw"
proof (cases "fst rw")
  case (Inl e)
  then show ?thesis by (simp add: inline_step_def on_response_def)
next
  case (Inr data)
  show ?thesis
  proof (cases "cond_nested data ''content''")
    case (Inl e)
    with Inr show ?thesis
      by (simp add: inline_step_def on_response_def inline_page_def advance_in_Raise)
  next
    case c: (Inr t)
    show ?thesis
    proof (cases t)
      case False
      with Inr c show ?thesis
        by (simp add: inline_step_def on_response_def inline_page_def advance_in_warn)
    next
      case True
      with Inr c show ?thesis
        by (cases "nested_items data ''content''")
           (simp_all add: inline_step_def on_response_def inline_page_def advance_in_Raise
              take_page_in_pure advance_in_pure)
    qed
  qed
qed

lemma generic_step_pure:
  "generic_step con key sz msg s rw = on_response con (generic_page key sz) msg s rw"
proof (cases "fst rw")
  case (Inl e)
  then show ?thesis by (simp add: generic_step_def on_response_def)
next
  case (Inr data)
  show ?thesis
  proof (cases "cond_nested data key")
    case (Inl e)
    with Inr show ?thesis
      by (simp add: generic_step_def on_response_def generic_page_def advance_in_Raise)
  next
    case c: (Inr t)
    show ?thesis
    proof (cases t)
      case True
      with Inr c show ?thesis
        by (cases "nested_items data key")
           (simp_all add: generic_step_def on_response_def generic_page_def advance_in_Raise
              take_page_in_pure advance_in_pure)
    next
      case False
      show ?thesis
      proof (cases "cond_direct data key")
        case (Inl e)
        with Inr c False show ?thesis
          by (simp add: generic_step_def on_response_def generic_page_def advance_in_Raise)
      next
        case d: (Inr t')
        show ?thesis
        proof (cases t')
          case False
          with Inr c \<open>\<not> t\<close> d show ?thesis
            by (simp add: generic_step_def on_response_def generic_page_def advance_in_warn)
        next
          case True
          with Inr c \<open>\<not> t\<close> d show ?thesis
            by (cases "py_getitem data ''data''")
               (simp_all add: generic_step_def on_response_def generic_page_def advance_in_Raise
                  take_page_in_pure advance_in_pure)
        qed
      qed
    qed
  qed
qed

lemma make_api_request_fst:
  "writable con \<Longrightarrow>
   fst (make_api_request con srv u hs ps w) =
     request_result (srv (length (exchanges w))
        \<lparr>url = u, headers = hs, params = (case ps of None \<Rightarrow> [] | Some p \<Rightarrow> p), timeout = 30\<rparr>)"
  by (simp add: make_api_request_def request_result_def Let_def print_writable
      split: sum.splits prod.splits option.splits)

lemma make_api_request_exchanges:
  "exchanges (snd (make_api_request con srv u hs ps w)) =
     exchanges w @
       [(\<lparr>url = u, headers = hs, params = (case ps of None \<Rightarrow> [] | Some p \<Rightarrow> p), timeout = 30\<rparr>,
         srv (length (exchanges w))
           \<lparr>url = u, headers = hs, params = (case ps of None \<Rightarrow> [] | Some p \<Rightarrow> p), timeout = 30\<rparr>)]"
  by (simp add: make_api_request_def Let_def print_def
      split: sum.splits prod.splits option.splits)

lemma make_api_request_files:
  "files (snd (make_api_request con srv u hs ps w)) = files w"
  by (simp add: make_api_request_def Let_def print_def split: sum.splits prod.splits option.splits)

lemma request_result_body:
  "request_result out = Inr v \<Longrightarrow> v \<noteq> PNone \<Longrightarrow> response_body out = Some v"
  by (auto simp: request_result_def response_body_def try_get_def raise_for_status_def
      split: get_outcome.splits sum.splits if_splits option.splits)

lemma guarded_result:
  assumes "\<not> unguarded_body out" and "request_result out = Inr v"
  shows "case v of
           PList xs \<Rightarrow> xs = [] \<or> PStr ''data'' \<in> set xs
         | PStr s \<Rightarrow> s = [] \<or> sublist ''data'' s
         | _ \<Rightarrow> True"
proof (cases "v = PNone")
  case False
  from request_result_body[OF assms(2) False] assms(1) show ?thesis
    by (cases v) (auto simp: unguarded_body_def)
qed simp

lemma cond_direct_guarded:
  assumes "cond_nested v ''content'' = Inr False"
    and "case v of
           PList xs \<Rightarrow> xs = [] \<or> PStr ''data'' \<in> set xs
         | PStr s \<Rightarrow> s = [] \<or> sublist ''data'' s
         | _ \<Rightarrow> True"
  shows "cond_direct v ''content'' = Inr False"
  using assms
  by (cases v) (auto simp: cond_nested_def cond_direct_def split: if_splits option.splits)

lemma generic_page_guarded:
  assumes "case v of
             PList xs \<Rightarrow> xs = [] \<or> PStr ''data'' \<in> set xs
           | PStr s \<Rightarrow> s = [] \<or> sublist ''data'' s
           | _ \<Rightarrow> True"
  shows "generic_page ''content'' 100 v s = inline_page v s"
proof (cases "cond_nested v ''content''")
  case (Inl e)
  then show ?thesis by (simp add: generic_page_def inline_page_def)
next
  case (Inr t)
  show ?thesis
  proof (cases t)
    case True
    with Inr show ?thesis by (simp add: generic_page_def inline_page_def)
  next
    case False
    with Inr cond_direct_guarded[OF _ assms] show ?thesis
      by (simp add: generic_page_def inline_page_def)
  qed
qed

lemma warn_writable: "writable con \<Longrightarrow> warn con msg s w = Break (s, written msg w)"
  by (simp add: warn_def print_writable)

lemma on_response_abs:
  "writable con \<Longrightarrow>
   map_ctl calls_made (on_response con page msg s rw) =
     (case fst rw of
        Inl e \<Rightarrow> Raise e (s, length (exchanges (snd rw)))
      | Inr data \<Rightarrow>
          (case page data s of
             Inl u \<Rightarrow> Break (s, length (exchanges (snd rw)))
           | Inr k \<Rightarrow> map_ctl (\<lambda>s'. (s', length (exchanges (snd rw)))) k))"
  by (simp add: on_response_def calls_made_def ctl.map_comp comp_def warn_writable
      split: sum.splits)

lemma get_projects_body_abs:
  "writable con \<Longrightarrow>
   map_ctl calls_made (get_projects_body con (\<lambda>n req. resp n) u hs acc org sw) =
     body_abs inline_page resp (calls_made sw)"
  by (cases sw)
     (simp add: get_projects_body_step inline_step_pure on_response_abs make_api_request_fst
        make_api_request_exchanges body_abs_def calls_made_def split: sum.splits)

lemma get_pipelines_body_abs:
  "writable con \<Longrightarrow>
   map_ctl calls_made (get_pipelines_body con (\<lambda>n req. resp n) u hs acc org proj sw) =
     body_abs inline_page resp (calls_made sw)"
  by (cases sw)
     (simp add: get_pipelines_body_step inline_step_pure on_response_abs make_api_request_fst
        make_api_request_exchanges body_abs_def calls_made_def split: sum.splits)

lemma fetch_body_abs:
  "writable con \<Longrightarrow>
   map_ctl calls_made (fetch_body con (\<lambda>n req. resp n) u hs acc key sz sw) =
     body_abs (generic_page key sz) resp (calls_made sw)"
  by (cases sw)
     (simp add: fetch_body_step generic_step_pure on_response_abs make_api_request_fst
        make_api_request_exchanges body_abs_def calls_made_def split: sum.splits)

lemma body_abs_guarded:
  assumes "\<forall>n. \<not> unguarded_body (resp n)"
  shows "body_abs (generic_page ''content'' 100) resp sn = body_abs inline_page resp sn"
proof (cases "request_result (resp (snd sn))")
  case (Inl e)
  then show ?thesis by (simp add: body_abs_def)
next
  case (Inr v)
  from assms have "\<not> unguarded_body (resp (snd sn))" by simp
  from generic_page_guarded[OF guarded_result[OF this Inr]] Inr
  show ?thesis by (simp add: body_abs_def)
qed

lemma more_pages_abs: "more_pages sw = more_pages_abs (calls_made sw)"
  by (simp add: more_pages_def more_pages_abs_def calls_made_def)

lemma items_of_abs: "items_of (map_sum (apsnd calls_made) calls_made r) = items_of r"
  by (auto simp: items_of_def calls_made_def split: sum.splits)

lemma get_projects_abs:
  assumes wr: "writable con"
  shows "map_option fst (get_projects con (\<lambda>n req. resp n) base hs acc org w) =
     map_option items_of
       (py_while more_pages_abs (body_abs inline_page resp) (pstate0, length (exchanges w)))"
proof -
  let ?w = "written [Lit ''Fetching projects for organization: '', Val org, Lit ''...''] w"
  let ?b = "get_projects_body con (\<lambda>n req. resp n) (base @ ''/ng/api/projects'') hs acc org"
  have "py_while more_pages_abs (body_abs inline_page resp) (calls_made (pstate0, ?w)) =
          map_option (map_sum (apsnd calls_made) calls_made) (py_while more_pages ?b (pstate0, ?w))"
    by (rule py_while_abstract) (simp_all add: more_pages_abs get_projects_body_abs[OF wr])
  then have "map_option items_of
               (py_while more_pages_abs (body_abs inline_page resp) (pstate0, length (exchanges w))) =
             map_option items_of (py_while more_pages ?b (pstate0, ?w))"
    by (simp add: calls_made_def option.map_comp comp_def items_of_abs)
  moreover have "map_option fst (get_projects con (\<lambda>n req. resp n) base hs acc org w) =
                 map_option items_of (py_while more_pages ?b (pstate0, ?w))"
    by (cases "py_while more_pages ?b (pstate0, ?w)")
       (auto simp: get_projects_def Let_def items_of_def print_writable[OF wr]
          split: sum.splits)
  ultimately show ?thesis by simp
qed

lemma get_pipelines_abs:
  assumes wr: "writable con"
  shows "map_option fst (get_pipelines con (\<lambda>n req. resp n) base hs acc org proj w) =
     map_option items_of
       (py_while more_pages_abs (body_abs inline_page resp) (pstate0, length (exchanges w)))"
proof -
  let ?w = "written [Lit ''Fetching pipelines for project: '', Val proj,
                     Lit '' in org: '', Val org, Lit ''...''] w"
  let ?b = "get_pipelines_body con (\<lambda>n req. resp n) (base @ ''/ng/api/pipelines'') hs acc org proj"
  have "py_while more_pages_abs (body_abs inline_page resp) (calls_made (pstate0, ?w)) =
          map_option (map_sum (apsnd calls_made) calls_made) (py_while more_pages ?b (pstate0, ?w))"
    by (rule py_while_abstract) (simp_all add: more_pages_abs get_pipelines_body_abs[OF wr])
  then have "map_option items_of
               (py_while more_pages_abs (body_abs inline_page resp) (pstate0, length (exchanges w))) =
             map_option items_of (py_while more_pages ?b (pstate0, ?w))"
    by (simp add: calls_made_def option.map_comp comp_def items_of_abs)
  moreover have "map_option fst (get_pipelines con (\<lambda>n req. resp n) base hs acc org proj w) =
                 map_option items_of (py_while more_pages ?b (pstate0, ?w))"
    by (cases "py_while more_pages ?b (pstate0, ?w)")
       (auto simp: get_pipelines_def Let_def items_of_def print_writable[OF wr]
          split: sum.splits)
  ultimately show ?thesis by simp
qed

lemma fetch_all_abs:
  assumes wr: "writable con"
  shows "map_option fst (fetch_all_with_pagination con (\<lambda>n req. resp n) u hs acc key None w) =
     map_option items_of
       (py_while more_pages_abs (body_abs (generic_page key 100) resp)
          (pstate0, length (exchanges w)))"
proof -
  let ?b = "fetch_body con (\<lambda>n req. resp n) u hs acc key 100"
  have "py_while more_pages_abs (body_abs (generic_page key 100) resp) (calls_made (pstate0, w)) =
          map_option (map_sum (apsnd calls_made) calls_made) (py_while more_pages ?b (pstate0, w))"
    by (rule py_while_abstract) (simp_all add: more_pages_abs fetch_body_abs[OF wr])
  then have "map_option items_of
               (py_while more_pages_abs (body_abs (generic_page key 100) resp)
                  (pstate0, length (exchanges w))) =
             map_option items_of (py_while more_pages ?b (pstate0, w))"
    by (simp add: calls_made_def option.map_comp comp_def items_of_abs)
  moreover have "map_option fst (fetch_all_with_pagination con (\<lambda>n req. resp n) u hs acc key None w) =
                 map_option items_of (py_while more_pages ?b (pstate0, w))"
    by (cases "py_while more_pages ?b (pstate0, w)")
       (auto simp: fetch_all_with_pagination_def loop_result_def Let_def items_of_def
          split: sum.splits)
  ultimately show ?thesis by simp
qed

text \<open>
  C10. The loops of \<open>get_projects\<close> and \<open>get_pipelines\<close> are copies of the loop of
  \<open>fetch_all_with_pagination\<close>, and with the key \<^verbatim>\<open>"content"\<close> the routine is meant to do
  what they do. It does not on one kind of response. When the body is a JSON list that is
  not empty and has no string \<^verbatim>\<open>"data"\<close> in it, the first test of each loop is false; the
  copies then print their warning and return what they have, but the routine goes on to
  its second test, which calls \<^verbatim>\<open>data.get\<close> on the list, and raises \<^verbatim>\<open>AttributeError\<close>.
  The second test guards against an absent body (\<^verbatim>\<open>data and ...\<close>) and misses the body
  that is there and is not an object.
\<close>

theorem generic_fetch_raises_on_list_body:
  "map_option fst
     (get_projects accepting (const_server (ok_response (PList [PInt 1]))) ''h'' [] ''acc''
        (PStr ''o'') w0)
     = Some (Inr [])
   \<and> map_option fst
     (get_pipelines accepting (const_server (ok_response (PList [PInt 1]))) ''h'' [] ''acc''
        (PStr ''o'') (PStr ''p'') w0)
     = Some (Inr [])
   \<and> map_option fst
     (fetch_all_with_pagination accepting (const_server (ok_response (PList [PInt 1])))
        ''h/ng/api/projects'' [] ''acc'' ''content'' None w0)
     = Some (Inl AttributeError)"
  by code_simp

text \<open>
  On every other response the three come to the same end. Against a server that answers
  by the number of the call, none of whose answers has a body of that kind, and with a
  console that takes every line, the loops of \<open>get_projects\<close> and \<open>get_pipelines\<close> and the
  routine called with the key \<^verbatim>\<open>"content"\<close> and the default page size return the same
  list, raise the same exception, or all go on for ever.
\<close>

lemma inline_loops_agree_elsewhere:
  assumes "writable con" and "\<forall>n. \<not> unguarded_body (resp n)"
  shows "map_option fst (get_projects con (\<lambda>n req. resp n) base hs acc org w) =
           map_option fst
             (fetch_all_with_pagination con (\<lambda>n req. resp n) u hs' acc' ''content'' None w)
       \<and> map_option fst (get_pipelines con (\<lambda>n req. resp n) base hs acc org proj w) =
           map_option fst
             (fetch_all_with_pagination con (\<lambda>n req. resp n) u hs' acc' ''content'' None w)"
proof -
  have "body_abs (generic_page ''content'' 100) resp = body_abs inline_page resp"
    using body_abs_guarded[OF assms(2)] by (intro ext)
  then show ?thesis
    by (simp add: get_projects_abs[OF assms(1)] get_pipelines_abs[OF assms(1)]
          fetch_all_abs[OF assms(1)])
qed

lemma make_api_request_declared:
  assumes "fst (make_api_request con srv u hs ps w) = Inr data"
  shows "declared_total_pages
           (srv (length (exchanges w))
              \<lparr>url = u, headers = hs, params = (case ps of None \<Rightarrow> [] | Some p \<Rightarrow> p),
               timeout = 30\<rparr>) = declared_in data"
proof -
  let ?out = "srv (length (exchanges w))
                \<lparr>url = u, headers = hs, params = (case ps of None \<Rightarrow> [] | Some p \<Rightarrow> p),
                 timeout = 30\<rparr>"
  from assms have "response_body ?out = Some data \<or> (data = PNone \<and> response_body ?out = None)"
    by (auto simp: make_api_request_def Let_def try_get_def raise_for_status_def print_def
          response_body_def
        split: get_outcome.splits sum.splits if_splits option.splits prod.splits)
  then show ?thesis by (auto simp: declared_total_pages_def declared_in_def)
qed

lemma advance_Continue:
  assumes "advance k = Continue s'"
  shows "\<exists>s1. k = Continue s1 \<and> s' = s1\<lparr>page_index := page_index s1 + 1\<rparr>
            \<and> py_int_ge (page_index s1 + 1) (total_pages s1) = Inr False"
  using assms
  by (cases k) (auto simp: advance_def Let_def split: sum.splits bool.splits)

lemma take_page_Continue:
  assumes "take_page items rt sz s = Continue s1"
  shows "\<exists>xs tp. py_iter items = Inr xs \<and> rt (total_pages s) = Inr tp
            \<and> s1 = s\<lparr>all_items := all_items s @ xs, total_pages := tp\<rparr>"
  using assms
  by (auto simp: take_page_def Let_def split: sum.splits if_splits)

lemma nested_items_Inr:
  assumes "nested_items data key = Inr items"
  shows "\<exists>obj d. data = PDict obj \<and> map_of obj ''data'' = Some (PDict d)
           \<and> map_of d key = Some items"
proof -
  from assms obtain dd where dd: "py_getitem data ''data'' = Inr dd" "py_getitem dd key = Inr items"
    by (auto simp: nested_items_def split: sum.splits)
  from py_getitem_Inr[OF dd(1)] obtain obj where obj: "data = PDict obj" "map_of obj ''data'' = Some dd"
    by blast
  from py_getitem_Inr[OF dd(2)] obtain d where "dd = PDict d" "map_of d key = Some items"
    by blast
  with obj show ?thesis by blast
qed

lemma nested_page_Continue:
  assumes "nested_items data key = Inr items"
    and "advance (take_page items (nested_total_pages data) sz s) = Continue s'"
  shows "page_index s' = page_index s + 1 \<and> (\<forall>t. declared_in data = Some t \<longrightarrow> total_pages s' = t)"
proof -
  from nested_items_Inr[OF assms(1)] obtain obj d where
    d: "data = PDict obj" "map_of obj ''data'' = Some (PDict d)" by blast
  then have rt: "nested_total_pages data (total_pages s) =
                   Inr (case map_of d ''totalPages'' of None \<Rightarrow> total_pages s | Some t \<Rightarrow> t)"
    by (simp add: nested_total_pages_def split: option.splits)
  from advance_Continue[OF assms(2)] obtain s1 where
    s1: "take_page items (nested_total_pages data) sz s = Continue s1"
        "s' = s1\<lparr>page_index := page_index s1 + 1\<rparr>" by blast
  from take_page_Continue[OF s1(1)] rt obtain xs where
    "s1 = s\<lparr>all_items := all_items s @ xs,
            total_pages := (case map_of d ''totalPages'' of None \<Rightarrow> total_pages s | Some t \<Rightarrow> t)\<rparr>"
    by auto
  with s1(2) d show ?thesis by (auto simp: declared_in_def)
qed

lemma inline_page_Continue:
  assumes "inline_page data s = Inr (Continue s')"
  shows "page_index s' = page_index s + 1 \<and> (\<forall>t. declared_in data = Some t \<longrightarrow> total_pages s' = t)"
proof -
  from assms obtain items where
    "nested_items data ''content'' = Inr items"
    "advance (take_page items (nested_total_pages data) 100 s) = Continue s'"
    by (auto simp: inline_page_def split: sum.splits bool.splits)
  then show ?thesis by (rule nested_page_Continue)
qed

lemma cond_direct_True:
  assumes "cond_direct data key = Inr True"
  shows "\<exists>obj xs. data = PDict obj \<and> map_of obj ''data'' = Some (PList xs)"
proof -
  from assms obtain d where d: "py_get data ''data'' PNone = Inr d" "is_list d"
    by (auto simp: cond_direct_def split: if_splits sum.splits)
  from py_get_Inr[OF d(1)] obtain obj where obj: "data = PDict obj" by blast
  from d(2) obtain xs where "d = PList xs" by (cases d) auto
  with d(1) obj show ?thesis by (auto split: option.splits)
qed

lemma direct_page_Continue:
  assumes "cond_direct data key = Inr True"
    and "py_getitem data ''data'' = Inr items"
    and "advance (take_page items (py_get data ''totalPages'') sz s) = Continue s'"
  shows "page_index s' = page_index s + 1 \<and> (\<forall>t. declared_in data = Some t \<longrightarrow> total_pages s' = t)"
proof -
  from cond_direct_True[OF assms(1)] obtain obj xs where
    d: "data = PDict obj" "map_of obj ''data'' = Some (PList xs)" by blast
  then have rt: "py_get data ''totalPages'' (total_pages s) =
                   Inr (case map_of obj ''totalPages'' of None \<Rightarrow> total_pages s | Some t \<Rightarrow> t)"
    by (simp split: option.splits)
  from advance_Continue[OF assms(3)] obtain s1 where
    s1: "take_page items (py_get data ''totalPages'') sz s = Continue s1"
        "s' = s1\<lparr>page_index := page_index s1 + 1\<rparr>" by blast
  from take_page_Continue[OF s1(1)] rt obtain ys where
    "s1 = s\<lparr>all_items := all_items s @ ys,
            total_pages := (case map_of obj ''totalPages'' of None \<Rightarrow> total_pages s | Some t \<Rightarrow> t)\<rparr>"
    by auto
  with s1(2) d show ?thesis by (auto simp: declared_in_def)
qed

lemma generic_page_Continue:
  assumes "generic_page key sz data s = Inr (Continue s')"
  shows "page_index s' = page_index s + 1 \<and> (\<forall>t. declared_in data = Some t \<longrightarrow> total_pages s' = t)"
proof (cases "cond_nested data key = Inr True")
  case True
  with assms obtain items where
    "nested_items data key = Inr items"
    "advance (take_page items (nested_total_pages data) sz s) = Continue s'"
    by (auto simp: generic_page_def split: sum.splits)
  then show ?thesis by (rule nested_page_Continue)
next
  case False
  with assms have cn: "cond_nested data key = Inr False"
    by (auto simp: generic_page_def split: sum.splits bool.splits)
  with assms have cd: "cond_direct data key = Inr True"
    by (auto simp: generic_page_def split: sum.splits bool.splits)
  with assms cn obtain items where
    "py_getitem data ''data'' = Inr items"
    "advance (take_page items (py_get data ''totalPages'') sz s) = Continue s'"
    by (auto simp: generic_page_def split: sum.splits)
  with cd show ?thesis by (rule direct_page_Continue)
qed

lemma warn_exchanges: "exchanges (snd (ctl_state (warn con msg s w))) = exchanges w"
  by (simp add: warn_def print_def split: option.splits)

lemma warn_not_Continue: "warn con msg s w \<noteq> Continue sw"
  by (simp add: warn_def split: sum.splits)

lemma on_response_exchanges:
  "exchanges (snd (ctl_state (on_response con page msg s rw))) = exchanges (snd rw)"
proof (cases "fst rw")
  case (Inl e)
  then show ?thesis by (simp add: on_response_def)
next
  case (Inr data)
  show ?thesis
  proof (cases "page data s")
    case (Inl u)
    with Inr show ?thesis by (simp add: on_response_def warn_exchanges)
  next
    case k: (Inr k)
    with Inr show ?thesis by (cases k) (simp_all add: on_response_def)
  qed
qed

lemma on_response_Continue:
  assumes "on_response con page msg s rw = Continue (s', w')"
  shows "\<exists>data. fst rw = Inr data \<and> page data s = Inr (Continue s')"
proof (cases "fst rw")
  case (Inl e)
  with assms show ?thesis by (simp add: on_response_def)
next
  case (Inr data)
  show ?thesis
  proof (cases "page data s")
    case (Inl u)
    with Inr assms show ?thesis by (simp add: on_response_def warn_not_Continue)
  next
    case k: (Inr k)
    with Inr assms show ?thesis by (cases k) (simp_all add: on_response_def)
  qed
qed

lemma pages_in_order_snoc:
  assumes "pages_in_order ex" and "requested_page req = Some (PInt (int (length ex)))"
  shows "pages_in_order (ex @ [(req, out)])"
  using assms by (simp add: pages_in_order_def)

lemma zip_tl_cons: "zip (x # ys @ [y, z]) (ys @ [y, z]) = zip (x # ys) (ys @ [y]) @ [(y, z)]"
  by (induction ys arbitrary: x) auto

lemma zip_tl_short: "zip (x # ys @ [y]) (ys @ [y]) = zip (x # ys) (ys @ [y])"
  by (induction ys arbitrary: x) auto

lemma zip_tl_snoc:
  "zip (ys @ [y, z]) (tl (ys @ [y, z])) = zip (ys @ [y]) (tl (ys @ [y])) @ [(y, z)]"
  by (cases ys) (simp_all add: zip_tl_cons zip_tl_short)

lemma within_declared_snoc:
  assumes "within_declared ex" and "ex \<noteq> [] \<Longrightarrow> below_declared (snd (last ex)) req"
  shows "within_declared (ex @ [(req, out)])"
proof (cases ex rule: rev_cases)
  case Nil
  then show ?thesis by (simp add: within_declared_def)
next
  case (snoc ys y)
  with assms zip_tl_snoc[of ys y "(req, out)"] show ?thesis
    by (simp add: within_declared_def)
qed

lemma pages_in_order_distinct:
  assumes "pages_in_order ex"
  shows "distinct (map (\<lambda>x. requested_page (fst x)) ex)"
proof -
  have "inj_on (\<lambda>i. Some (PInt (int i))) (set [0..<length ex])" by (auto simp: inj_on_def)
  then have "distinct (map (\<lambda>i. Some (PInt (int i))) [0..<length ex])"
    by (simp add: distinct_map)
  with assms show ?thesis by (simp add: pages_in_order_def)
qed

lemma log_invariant_start: "log_invariant w (Continue (pstate0, w))"
  by (simp add: log_invariant_def pages_in_order_def within_declared_def pstate0_def)

lemma log_invariant_step:
  assumes inv: "log_invariant w (Continue (s, w1))"
    and test: "more_pages (s, w1) = Inr True"
    and pg: "map_of ps ''page'' = Some (PInt (page_index s))"
    and cont: "\<And>data s'. page data s = Inr (Continue s') \<Longrightarrow>
                 page_index s' = page_index s + 1
                 \<and> (\<forall>t. declared_in data = Some t \<longrightarrow> total_pages s' = t)"
  shows "log_invariant w (on_response con page msg s (make_api_request con srv u hs (Some ps) w1))"
proof -
  let ?req = "\<lparr>url = u, headers = hs, params = ps, timeout = 30\<rparr>"
  let ?out = "srv (length (exchanges w1)) ?req"
  let ?rw = "make_api_request con srv u hs (Some ps) w1"
  let ?k = "on_response con page msg s ?rw"
  from inv obtain ex where ex: "exchanges w1 = exchanges w @ ex" "pages_in_order ex"
    "within_declared ex" "page_index s = int (length ex)"
    "ex \<noteq> [] \<Longrightarrow> (\<forall>t. declared_total_pages (snd (last ex)) = Some t \<longrightarrow> total_pages s = t)"
    by (auto simp: log_invariant_def)
  have e1: "exchanges (snd (ctl_state ?k)) = exchanges w @ (ex @ [(?req, ?out)])"
    using ex(1) by (simp add: on_response_exchanges make_api_request_exchanges)
  have rp: "requested_page ?req = Some (PInt (int (length ex)))"
    using pg ex(4) by (simp add: requested_page_def)
  have e2: "pages_in_order (ex @ [(?req, ?out)])"
    using ex(2) rp by (rule pages_in_order_snoc)
  have bd: "below_declared (snd (last ex)) ?req" if "ex \<noteq> []"
  proof (cases "declared_total_pages (snd (last ex))")
    case None
    then show ?thesis by (simp add: below_declared_def)
  next
    case (Some t)
    with ex(5)[OF that] have "total_pages s = t" by simp
    with test ex(4) have "py_int_lt (int (length ex)) t = Inr True"
      by (simp add: more_pages_def)
    with Some rp show ?thesis by (simp add: below_declared_def)
  qed
  have e3: "within_declared (ex @ [(?req, ?out)])"
    using ex(3) bd by (rule within_declared_snoc)
  have e4: "page_index s' = int (length (ex @ [(?req, ?out)]))
            \<and> (\<forall>t. declared_total_pages (snd (last (ex @ [(?req, ?out)]))) = Some t
                   \<longrightarrow> total_pages s' = t)"
    if "?k = Continue (s', w')" for s' w'
  proof -
    from on_response_Continue[OF that] obtain data where
      data: "fst ?rw = Inr data" "page data s = Inr (Continue s')" by blast
    from make_api_request_declared[OF data(1)] cont[OF data(2)] ex(4) show ?thesis by simp
  qed
  show ?thesis
    unfolding log_invariant_def
    using e1 e2 e3 e4 by (intro exI[of _ "ex @ [(?req, ?out)]"]) auto
qed

lemma log_invariant_added:
  assumes "log_invariant w k"
  shows "pages_in_order (added_exchanges w k) \<and> within_declared (added_exchanges w k)
       \<and> distinct (map (\<lambda>x. requested_page (fst x)) (added_exchanges w k))"
  using assms by (auto simp: log_invariant_def added_exchanges_def pages_in_order_distinct)

lemma fetch_body_log:
  assumes "in_run more_pages (fetch_body con srv u hs acc key sz) (pstate0, w) k"
  shows "log_invariant w k"
  using assms
proof (rule in_run_invariant)
  show "log_invariant w (Continue (pstate0, w))" by (rule log_invariant_start)
next
  fix sw :: "pstate \<times> world"
  assume inv: "log_invariant w (Continue sw)" and test: "more_pages sw = Inr True"
  obtain s w1 where sw: "sw = (s, w1)" by (cases sw)
  show "log_invariant w (fetch_body con srv u hs acc key sz sw)"
    unfolding sw fetch_body_step generic_step_pure
    by (rule log_invariant_step[OF inv[unfolded sw] test[unfolded sw]])
       (simp_all add: generic_page_Continue)
qed

lemma get_projects_body_log:
  assumes "in_run more_pages (get_projects_body con srv u hs acc org) (pstate0, w) k"
  shows "log_invariant w k"
  using assms
proof (rule in_run_invariant)
  show "log_invariant w (Continue (pstate0, w))" by (rule log_invariant_start)
next
  fix sw :: "pstate \<times> world"
  assume inv: "log_invariant w (Continue sw)" and test: "more_pages sw = Inr True"
  obtain s w1 where sw: "sw = (s, w1)" by (cases sw)
  show "log_invariant w (get_projects_body con srv u hs acc org sw)"
    unfolding sw get_projects_body_step inline_step_pure
    by (rule log_invariant_step[OF inv[unfolded sw] test[unfolded sw]])
       (simp_all add: inline_page_Continue)
qed

lemma get_pipelines_body_log:
  assumes "in_run more_pages (get_pipelines_body con srv u hs acc org proj) (pstate0, w) k"
  shows "log_invariant w k"
  using assms
proof (rule in_run_invariant)
  show "log_invariant w (Continue (pstate0, w))" by (rule log_invariant_start)
next
  fix sw :: "pstate \<times> world"
  assume inv: "log_invariant w (Continue sw)" and test: "more_pages sw = Inr True"
  obtain s w1 where sw: "sw = (s, w1)" by (cases sw)
  show "log_invariant w (get_pipelines_body con srv u hs acc org proj sw)"
    unfolding sw get_pipelines_body_step inline_step_pure
    by (rule log_invariant_step[OF inv[unfolded sw] test[unfolded sw]])
       (simp_all add: inline_page_Continue)
qed

text \<open>
  C5. At every point of a run of one of the three pagination loops, ended or not, the
  requests made so far ask for the pages 0, 1, 2, ... in this order, so that no page is
  requested twice, and each request but the first asks for a page whose index is below
  the total-page count declared by the response just before it, if that response declares
  one.
\<close>

theorem pages_once_and_below_total:
  "(in_run more_pages (fetch_body con srv u hs acc key sz) (pstate0, w) k \<longrightarrow>
      pages_in_order (added_exchanges w k) \<and> within_declared (added_exchanges w k)
      \<and> distinct (map (\<lambda>x. requested_page (fst x)) (added_exchanges w k)))
   \<and> (in_run more_pages (get_projects_body con srv u hs acc org) (pstate0, w) k \<longrightarrow>
      pages_in_order (added_exchanges w k) \<and> within_declared (added_exchanges w k)
      \<and> distinct (map (\<lambda>x. requested_page (fst x)) (added_exchanges w k)))
   \<and> (in_run more_pages (get_pipelines_body con srv u hs acc org proj) (pstate0, w) k \<longrightarrow>
      pages_in_order (added_exchanges w k) \<and> within_declared (added_exchanges w k)
      \<and> distinct (map (\<lambda>x. requested_page (fst x)) (added_exchanges w k)))"
  by (auto dest!: fetch_body_log get_projects_body_log get_pipelines_body_log
        log_invariant_added)

text \<open>
  The same holds of the whole log of a call that returns, since the state in which a loop
  ends is one of the points of its run.
\<close>

lemma loop_end_log:
  assumes "py_while more_pages b (pstate0, w1) = Some res"
    and "\<And>k. in_run more_pages b (pstate0, w1) k \<Longrightarrow> log_invariant w1 k"
    and "exchanges w1 = exchanges w"
  shows "pages_in_order (drop (length (exchanges w)) (exchanges (snd (end_state res))))
       \<and> within_declared (drop (length (exchanges w)) (exchanges (snd (end_state res))))
       \<and> distinct (map (\<lambda>x. requested_page (fst x))
            (drop (length (exchanges w)) (exchanges (snd (end_state res)))))"
proof -
  from py_while_in_run[OF assms(1)] obtain k where
    k: "in_run more_pages b (pstate0, w1) k" "ctl_state k = end_state res" by blast
  from log_invariant_added[OF assms(2)[OF k(1)]] k(2) assms(3) show ?thesis
    by (simp add: added_exchanges_def)
qed

lemma fetch_all_with_pagination_log:
  assumes "fetch_all_with_pagination con srv u hs acc key sz w = Some (r, w')"
  shows "pages_in_order (drop (length (exchanges w)) (exchanges w'))
       \<and> within_declared (drop (length (exchanges w)) (exchanges w'))
       \<and> distinct (map (\<lambda>x. requested_page (fst x)) (drop (length (exchanges w)) (exchanges w')))"
proof -
  let ?b = "fetch_body con srv u hs acc key (case sz of None \<Rightarrow> 100 | Some n \<Rightarrow> n)"
  from assms obtain res where res: "py_while more_pages ?b (pstate0, w) = Some res"
    "snd (end_state res) = w'"
    by (auto simp: fetch_all_with_pagination_def loop_result_def end_state_def Let_def
        split: option.splits sum.splits)
  have inv: "\<And>k. in_run more_pages ?b (pstate0, w) k \<Longrightarrow> log_invariant w k"
    by (rule fetch_body_log)
  from loop_end_log[OF res(1) inv, of w] res(2) show ?thesis by simp
qed

lemma get_projects_log:
  assumes "get_projects con srv base hs acc org w = Some (r, w')"
  shows "pages_in_order (drop (length (exchanges w)) (exchanges w'))
       \<and> within_declared (drop (length (exchanges w)) (exchanges w'))
       \<and> distinct (map (\<lambda>x. requested_page (fst x)) (drop (length (exchanges w)) (exchanges w')))"
proof -
  let ?w = "written [Lit ''Fetching projects for organization: '', Val org, Lit ''...''] w"
  let ?b = "get_projects_body con srv (base @ ''/ng/api/projects'') hs acc org"
  from assms consider (failed) "exchanges w' = exchanges w"
    | (ran) res where "py_while more_pages ?b (pstate0, ?w) = Some res"
        "exchanges (snd (end_state res)) = exchanges w'"
    by (auto simp: get_projects_def end_state_def Let_def print_def
        split: option.splits sum.splits if_splits)
  then show ?thesis
  proof cases
    case failed
    then show ?thesis by (simp add: pages_in_order_def within_declared_def)
  next
    case ran
    have inv: "\<And>k. in_run more_pages ?b (pstate0, ?w) k \<Longrightarrow> log_invariant ?w k"
      by (rule get_projects_body_log)
    from loop_end_log[OF ran(1) inv, of w] ran(2) show ?thesis by simp
  qed
qed

lemma get_pipelines_log:
  assumes "get_pipelines con srv base hs acc org proj w = Some (r, w')"
  shows "pages_in_order (drop (length (exchanges w)) (exchanges w'))
       \<and> within_declared (drop (length (exchanges w)) (exchanges w'))
       \<and> distinct (map (\<lambda>x. requested_page (fst x)) (drop (length (exchanges w)) (exchanges w')))"
proof -
  let ?w = "written [Lit ''Fetching pipelines for project: '', Val proj,
                     Lit '' in org: '', Val org, Lit ''...''] w"
  let ?b = "get_pipelines_body con srv (base @ ''/ng/api/pipelines'') hs acc org proj"
  from assms consider (failed) "exchanges w' = exchanges w"
    | (ran) res where "py_while more_pages ?b (pstate0, ?w) = Some res"
        "exchanges (snd (end_state res)) = exchanges w'"
    by (auto simp: get_pipelines_def end_state_def Let_def print_def
        split: option.splits sum.splits if_splits)
  then show ?thesis
  proof cases
    case failed
    then show ?thesis by (simp add: pages_in_order_def within_declared_def)
  next
    case ran
    have inv: "\<And>k. in_run more_pages ?b (pstate0, ?w) k \<Longrightarrow> log_invariant ?w k"
      by (rule get_pipelines_body_log)
    from loop_end_log[OF ran(1) inv, of w] ran(2) show ?thesis by simp
  qed
qed

lemma two_page_first_pass:
  "\<exists>s1 w1. get_pipelines_body accepting two_page_server ''u'' [] ''acc'' (PStr ''o'') (PStr ''p'')
              (pstate0, w0) = Continue (s1, w1) \<and> more_pages (s1, w1) = Inr True"
  "\<exists>s1 w1. get_projects_body accepting two_page_server ''u'' [] ''acc'' (PStr ''o'')
              (pstate0, w0) = Continue (s1, w1) \<and> more_pages (s1, w1) = Inr True"
  "\<exists>s1 w1. fetch_body accepting two_page_server ''u'' [] ''acc'' ''content'' 100
              (pstate0, w0) = Continue (s1, w1) \<and> more_pages (s1, w1) = Inr True"
  by (simp_all add: get_pipelines_body_def get_projects_body_def fetch_body_def
      make_api_request_def try_get_def raise_for_status_def two_page_server_def ok_response_def
      w0_def pstate0_def Let_def cond_nested_def nested_items_def nested_total_pages_def
      py_eq_int_def py_int_ge_def py_int_lt_def more_pages_def)

lemma body_calls:
  "length (exchanges (snd (ctl_state (fetch_body con srv u hs acc key sz (s, w))))) =
     Suc (length (exchanges w))"
  "length (exchanges (snd (ctl_state (get_projects_body con srv u hs acc org (s, w))))) =
     Suc (length (exchanges w))"
  "length (exchanges (snd (ctl_state (get_pipelines_body con srv u hs acc org proj (s, w))))) =
     Suc (length (exchanges w))"
  by (simp_all add: fetch_body_step get_projects_body_step get_pipelines_body_step
      generic_step_pure inline_step_pure on_response_exchanges make_api_request_exchanges)

lemma two_passes:
  assumes first: "b (pstate0, w0) = Continue (s1, w1)" "more_pages (s1, w1) = Inr True"
    and calls: "\<And>s w. length (exchanges (snd (ctl_state (b (s, w))))) = Suc (length (exchanges w))"
  shows "in_run more_pages b (pstate0, w0) (b (s1, w1))
       \<and> length (added_exchanges w0 (b (s1, w1))) = 2"
proof -
  have "more_pages (pstate0, w0) = Inr True"
    by (simp add: more_pages_def pstate0_def py_int_lt_def)
  with in_run.pass[OF in_run.start, of more_pages "(pstate0, w0)" b] first(1)
  have "in_run more_pages b (pstate0, w0) (Continue (s1, w1))" by simp
  from in_run.pass[OF this first(2)] have run: "in_run more_pages b (pstate0, w0) (b (s1, w1))" .
  from calls[of pstate0 w0] first(1) have "length (exchanges w1) = 1" by (simp add: w0_def)
  with calls[of s1 w1] have "length (added_exchanges w0 (b (s1, w1))) = 2"
    by (simp add: added_exchanges_def w0_def)
  with run show ?thesis by simp
qed

theorem pages_once_and_below_total_witness:
  "(\<exists>k. in_run more_pages (fetch_body accepting two_page_server ''u'' [] ''acc'' ''content'' 100)
           (pstate0, w0) k
        \<and> length (added_exchanges w0 k) = 2
        \<and> pages_in_order (added_exchanges w0 k) \<and> within_declared (added_exchanges w0 k)
        \<and> distinct (map (\<lambda>x. requested_page (fst x)) (added_exchanges w0 k)))
   \<and> (\<exists>k. in_run more_pages (get_projects_body accepting two_page_server ''u'' [] ''acc'' (PStr ''o''))
           (pstate0, w0) k
        \<and> length (added_exchanges w0 k) = 2
        \<and> pages_in_order (added_exchanges w0 k) \<and> within_declared (added_exchanges w0 k)
        \<and> distinct (map (\<lambda>x. requested_page (fst x)) (added_exchanges w0 k)))
   \<and> (\<exists>k. in_run more_pages
           (get_pipelines_body accepting two_page_server ''u'' [] ''acc'' (PStr ''o'') (PStr ''p''))
           (pstate0, w0) k
        \<and> length (added_exchanges w0 k) = 2
        \<and> pages_in_order (added_exchanges w0 k) \<and> within_declared (added_exchanges w0 k)
        \<and> distinct (map (\<lambda>x. requested_page (fst x)) (added_exchanges w0 k)))"
proof -
  from two_page_first_pass(3) obtain s1 w1 where
    "fetch_body accepting two_page_server ''u'' [] ''acc'' ''content'' 100 (pstate0, w0) = Continue (s1, w1)"
    "more_pages (s1, w1) = Inr True" by blast
  from two_passes[OF this body_calls(1)] obtain k1 where
    k1: "in_run more_pages (fetch_body accepting two_page_server ''u'' [] ''acc'' ''content'' 100)
           (pstate0, w0) k1" "length (added_exchanges w0 k1) = 2" by blast
  from two_page_first_pass(2) obtain s2 w2 where
    "get_projects_body accepting two_page_server ''u'' [] ''acc'' (PStr ''o'') (pstate0, w0) = Continue (s2, w2)"
    "more_pages (s2, w2) = Inr True" by blast
  from two_passes[OF this body_calls(2)] obtain k2 where
    k2: "in_run more_pages (get_projects_body accepting two_page_server ''u'' [] ''acc'' (PStr ''o''))
           (pstate0, w0) k2" "length (added_exchanges w0 k2) = 2" by blast
  from two_page_first_pass(1) obtain s3 w3 where
    "get_pipelines_body accepting two_page_server ''u'' [] ''acc'' (PStr ''o'') (PStr ''p'') (pstate0, w0)
       = Continue (s3, w3)"
    "more_pages (s3, w3) = Inr True" by blast
  from two_passes[OF this body_calls(3)] obtain k3 where
    k3: "in_run more_pages
           (get_pipelines_body accepting two_page_server ''u'' [] ''acc'' (PStr ''o'') (PStr ''p''))
           (pstate0, w0) k3" "length (added_exchanges w0 k3) = 2" by blast
  from pages_once_and_below_total
         [where srv = two_page_server and u = "''u''" and hs = "[]" and acc = "''acc''"
            and key = "''content''" and sz = 100 and w = w0 and k = k1]
       pages_once_and_below_total
         [where srv = two_page_server and u = "''u''" and hs = "[]" and acc = "''acc''"
            and org = "PStr ''o''" and w = w0 and k = k2]
       pages_once_and_below_total
         [where srv = two_page_server and u = "''u''" and hs = "[]" and acc = "''acc''"
            and org = "PStr ''o''" and proj = "PStr ''p''" and w = w0 and k = k3]
       k1 k2 k3
  show ?thesis by blast
qed

lemma page_step_short:
  assumes "int (length xs) < sz" and "0 < sz"
  shows "\<exists>s'. page_step sz xs t s = Break s' \<and> all_items s' = all_items s @ xs"
  using assms
  by (auto simp: page_step_def take_page_def advance_def Let_def)

lemma page_step_full:
  assumes "\<not> int (length xs) < sz" and "0 < sz"
  shows "page_step sz xs t s =
           (case py_int_ge (page_index s + 1) (case t of None \<Rightarrow> total_pages s | Some t' \<Rightarrow> t') of
              Inl e \<Rightarrow> Raise e (s\<lparr>all_items := all_items s @ xs,
                                   total_pages := (case t of None \<Rightarrow> total_pages s | Some t' \<Rightarrow> t'),
                                   page_index := page_index s + 1\<rparr>)
            | Inr g \<Rightarrow>
                if g then Break (s\<lparr>all_items := all_items s @ xs,
                                   total_pages := (case t of None \<Rightarrow> total_pages s | Some t' \<Rightarrow> t'),
                                   page_index := page_index s + 1\<rparr>)
                else Continue (s\<lparr>all_items := all_items s @ xs,
                                  total_pages := (case t of None \<Rightarrow> total_pages s | Some t' \<Rightarrow> t'),
                                  page_index := page_index s + 1\<rparr>))"
proof -
  from assms have "xs \<noteq> []" by auto
  with assms show ?thesis
    by (cases t)
       (auto simp: page_step_def take_page_def advance_def Let_def
          split: sum.splits bool.splits)
qed

lemma py_int_lt_ge:
  "py_int_lt i v = Inr True \<Longrightarrow> py_int_ge i v = Inr False"
  by (cases "num_of v"; cases "the (num_of v)") (auto simp: py_int_lt_def py_int_ge_def)

lemma py_int_ge_lt:
  "py_int_ge i v = Inr True \<Longrightarrow> py_int_lt i v = Inr False"
  by (cases "num_of v"; cases "the (num_of v)") (auto simp: py_int_lt_def py_int_ge_def)

lemma py_int_lt_numeric:
  "py_int_lt i v = Inr g \<Longrightarrow> num_of v \<noteq> None"
  by (auto simp: py_int_lt_def split: option.splits)

lemma numeric_cmp:
  "num_of v \<noteq> None \<Longrightarrow> (\<exists>g. py_int_lt i v = Inr g) \<and> (\<exists>g. py_int_ge i v = Inr g)"
  by (auto simp: py_int_lt_def py_int_ge_def)

lemma page_of_numeric:
  "page_of key out = Some (xs, Some t) \<Longrightarrow> num_of t \<noteq> None"
  by (auto simp: page_of_def page_in_def
      split: option.splits pyval.splits if_splits)

lemma carried_step:
  assumes "total_pages s = (if p = 0 then PInt 1 else carried tot (p - 1))"
  shows "carried tot p = (case tot p of None \<Rightarrow> total_pages s | Some t \<Rightarrow> t)"
  using assms by (cases p) (auto split: option.splits)

lemma py_while_enter:
  "c s = Inr True \<Longrightarrow>
   py_while c b s =
     (case b s of Continue s' \<Rightarrow> py_while c b s'
      | Break s' \<Rightarrow> Some (Inr s') | Raise e s' \<Rightarrow> Some (Inl (e, s')))"
  by (subst py_while.simps) simp

lemma py_while_exit: "c s = Inr False \<Longrightarrow> py_while c b s = Some (Inr s)"
  by (subst py_while.simps) simp

lemma paginate_run:
  assumes step: "\<And>s w xs t.
        page_of key (srv (length (exchanges w)) (rq (page_index s))) = Some (xs, t) \<Longrightarrow>
        b (s, w) =
          map_ctl (\<lambda>s'. (s', w\<lparr>exchanges := exchanges w @
                      [(rq (page_index s), srv (length (exchanges w)) (rq (page_index s)))]\<rparr>))
            (page_step sz xs t s)"
    and sz: "0 < sz"
    and wf: "\<forall>i\<le>k. page_of key (served srv rq n0 i) \<noteq> None"
    and last: "last_page sz key (served srv rq n0) k"
    and first: "\<forall>j<k. \<not> last_page sz key (served srv rq n0) j"
  shows "p \<le> k \<Longrightarrow> page_index s = int p \<Longrightarrow> length (exchanges w) = n0 + p \<Longrightarrow>
         total_pages s =
           (if p = 0 then PInt 1
            else carried (\<lambda>i. page_total key (served srv rq n0 i)) (p - 1)) \<Longrightarrow>
         py_int_lt (int p) (total_pages s) = Inr True \<Longrightarrow>
         \<exists>s'. py_while more_pages b (s, w) =
                Some (Inr (s', w\<lparr>exchanges := exchanges w @
                              map (\<lambda>i. (rq (int i), served srv rq n0 i)) [p..<Suc k]\<rparr>))
            \<and> all_items s' =
                all_items s @ concat (map (\<lambda>i. page_items key (served srv rq n0 i)) [p..<Suc k])"
proof (induction "k - p" arbitrary: p s w)
  case 0
  then have pk: "p = k" by simp
  let ?out = "served srv rq n0 p"
  from wf 0(2) obtain xs t where pg: "page_of key ?out = Some (xs, t)" by (cases "page_of key ?out") auto
  have out: "srv (length (exchanges w)) (rq (page_index s)) = ?out"
    using 0(3,4) by (simp add: served_def)
  let ?w1 = "w\<lparr>exchanges := exchanges w @ [(rq (int p), ?out)]\<rparr>"
  have body: "b (s, w) = map_ctl (\<lambda>s'. (s', ?w1)) (page_step sz xs t s)"
    using step[of w s xs t] pg out 0(3) by simp
  have enter: "more_pages (s, w) = Inr True" using 0(6) 0(3) by (simp add: more_pages_def)
  have items: "page_items key ?out = xs" and total: "page_total key ?out = t"
    using pg by (simp_all add: page_items_def page_total_def)
  let ?tp = "case t of None \<Rightarrow> total_pages s | Some t' \<Rightarrow> t'"
  have car: "carried (\<lambda>i. page_total key (served srv rq n0 i)) p = ?tp"
    using carried_step[OF 0(5)] total by simp
  have num: "num_of ?tp \<noteq> None"
    using py_int_lt_numeric[OF 0(6)] pg
    by (cases t) (auto dest: page_of_numeric)
  have upt: "[p..<Suc k] = [p]" using pk by simp
  show ?case
  proof (cases "int (length xs) < sz")
    case True
    from page_step_short[OF True sz, of t s] obtain s' where
      "page_step sz xs t s = Break s'" "all_items s' = all_items s @ xs" by blast
    with body enter items upt show ?thesis
      by (simp add: py_while_enter)
  next
    case False
    with last pk items car have nlt: "py_int_lt (int p + 1) ?tp \<noteq> Inr True"
      by (simp add: last_page_def)
    from numeric_cmp[OF num, of "int p + 1"] obtain g g' where
      g: "py_int_lt (int p + 1) ?tp = Inr g'" "py_int_ge (int p + 1) ?tp = Inr g" by blast
    with nlt have g': "py_int_lt (int p + 1) ?tp = Inr False" by (cases g') auto
    let ?s2 = "s\<lparr>all_items := all_items s @ xs, total_pages := ?tp, page_index := page_index s + 1\<rparr>"
    show ?thesis
    proof (cases g)
      case True
      with page_step_full[OF False sz, of t s] g(2) 0(3)
      have "page_step sz xs t s = Break ?s2" by simp
      with body enter items upt show ?thesis by (simp add: py_while_enter)
    next
      case gF: False
      with page_step_full[OF False sz, of t s] g(2) 0(3)
      have "page_step sz xs t s = Continue ?s2" by simp
      moreover have "more_pages (?s2, ?w1) = Inr False"
        using g' 0(3) by (simp add: more_pages_def)
      ultimately show ?thesis using body enter items upt
        by (simp add: py_while_enter py_while_exit)
    qed
  qed
next
  case (Suc n)
  then have pk: "p < k" by simp
  let ?out = "served srv rq n0 p"
  from wf Suc(3) obtain xs t where pg: "page_of key ?out = Some (xs, t)"
    by (cases "page_of key ?out") auto
  have out: "srv (length (exchanges w)) (rq (page_index s)) = ?out"
    using Suc(4,5) by (simp add: served_def)
  let ?w1 = "w\<lparr>exchanges := exchanges w @ [(rq (int p), ?out)]\<rparr>"
  have body: "b (s, w) = map_ctl (\<lambda>s'. (s', ?w1)) (page_step sz xs t s)"
    using step[of w s xs t] pg out Suc(4) by simp
  have enter: "more_pages (s, w) = Inr True" using Suc(7) Suc(4) by (simp add: more_pages_def)
  have items: "page_items key ?out = xs" and total: "page_total key ?out = t"
    using pg by (simp_all add: page_items_def page_total_def)
  let ?tp = "case t of None \<Rightarrow> total_pages s | Some t' \<Rightarrow> t'"
  have car: "carried (\<lambda>i. page_total key (served srv rq n0 i)) p = ?tp"
    using carried_step[OF Suc(6)] total by simp
  from first pk have "\<not> last_page sz key (served srv rq n0) p" by simp
  with items car have full: "\<not> int (length xs) < sz"
    and lt: "py_int_lt (int p + 1) ?tp = Inr True"
    by (simp_all add: last_page_def)
  let ?s2 = "s\<lparr>all_items := all_items s @ xs, total_pages := ?tp, page_index := page_index s + 1\<rparr>"
  from page_step_full[OF full sz, of t s] py_int_lt_ge[OF lt] Suc(4)
  have "page_step sz xs t s = Continue ?s2" by simp
  with body enter have unfold: "py_while more_pages b (s, w) = py_while more_pages b (?s2, ?w1)"
    by (simp add: py_while_enter)
  have "\<exists>s'. py_while more_pages b (?s2, ?w1) =
                Some (Inr (s', ?w1\<lparr>exchanges := exchanges ?w1 @
                              map (\<lambda>i. (rq (int i), served srv rq n0 i)) [Suc p..<Suc k]\<rparr>))
            \<and> all_items s' =
                all_items ?s2 @ concat (map (\<lambda>i. page_items key (served srv rq n0 i)) [Suc p..<Suc k])"
  proof (rule Suc(1))
    show "n = k - Suc p" using Suc(2) by simp
    show "Suc p \<le> k" using pk by simp
    show "page_index ?s2 = int (Suc p)" using Suc(4) by simp
    show "length (exchanges ?w1) = n0 + Suc p" using Suc(5) by simp
    show "total_pages ?s2 =
            (if Suc p = 0 then PInt 1
             else carried (\<lambda>i. page_total key (served srv rq n0 i)) (Suc p - 1))"
      using car by simp
    show "py_int_lt (int (Suc p)) (total_pages ?s2) = Inr True"
      using lt by (simp add: add.commute)
  qed
  then obtain s' where s': "py_while more_pages b (?s2, ?w1) =
                Some (Inr (s', ?w1\<lparr>exchanges := exchanges ?w1 @
                              map (\<lambda>i. (rq (int i), served srv rq n0 i)) [Suc p..<Suc k]\<rparr>))"
     "all_items s' =
                all_items ?s2 @ concat (map (\<lambda>i. page_items key (served srv rq n0 i)) [Suc p..<Suc k])"
    by blast
  have upt: "[p..<Suc k] = p # [Suc p..<Suc k]" using pk by (simp add: upt_conv_Cons)
  from s' unfold items show ?case
    by (simp add: upt del: upt_Suc)
qed

lemma response_bodyD:
  assumes "response_body out = Some v"
  shows "\<exists>r. out = GetReturns r \<and> \<not> (400 \<le> status_code r \<and> status_code r < 600)
           \<and> json_of r = Inr v"
  using assms
  by (auto simp: response_body_def split: get_outcome.splits if_splits sum.splits)

lemma page_in_shapes:
  assumes "page_in key data = Some (xs, t)"
  obtains (nested) obj d where "data = PDict obj" "map_of obj ''data'' = Some (PDict d)"
      "map_of d key = Some (PList xs)" "map_of d ''totalPages'' = t"
    | (direct) obj where "data = PDict obj" "map_of obj ''data'' = Some (PList xs)"
      "key = ''data_list_direct''" "PStr key \<notin> set xs" "map_of obj ''totalPages'' = t"
  using assms
  by (auto simp: page_in_def split: pyval.splits option.splits if_splits)

lemma nested_page_wf:
  assumes "data = PDict obj" "map_of obj ''data'' = Some (PDict d)"
    "map_of d key = Some (PList xs)" "map_of d ''totalPages'' = t"
  shows "cond_nested data key = Inr True"
    and "nested_items data key = Inr (PList xs)"
    and "nested_total_pages data = (\<lambda>tp. Inr (case t of None \<Rightarrow> tp | Some t' \<Rightarrow> t'))"
proof -
  note d = assms
  from d(2) have "obj \<noteq> []" by auto
  with d show "cond_nested data key = Inr True" by (simp add: cond_nested_def)
  from d show "nested_items data key = Inr (PList xs)" by (simp add: nested_items_def)
  from d show "nested_total_pages data = (\<lambda>tp. Inr (case t of None \<Rightarrow> tp | Some t' \<Rightarrow> t'))"
    by (auto simp: nested_total_pages_def split: option.splits)
qed

lemma direct_page_wf:
  assumes "data = PDict obj" "map_of obj ''data'' = Some (PList xs)"
    "key = ''data_list_direct''" "PStr key \<notin> set xs" "map_of obj ''totalPages'' = t"
  shows "cond_nested data key = Inr False"
    and "cond_direct data key = Inr True"
    and "py_getitem data ''data'' = Inr (PList xs)"
    and "py_get data ''totalPages'' = (\<lambda>tp. Inr (case t of None \<Rightarrow> tp | Some t' \<Rightarrow> t'))"
proof -
  note d = assms
  from d(2) have ne: "obj \<noteq> []" by auto
  with d show "cond_nested data key = Inr False" by (simp add: cond_nested_def)
  from d ne show "cond_direct data key = Inr True" by (simp add: cond_direct_def)
  from d show "py_getitem data ''data'' = Inr (PList xs)" by simp
  from d show "py_get data ''totalPages'' = (\<lambda>tp. Inr (case t of None \<Rightarrow> tp | Some t' \<Rightarrow> t'))"
    by (auto split: option.splits)
qed

lemma inline_page_wf:
  assumes "page_in ''content'' data = Some (xs, t)"
  shows "inline_page data s = Inr (page_step 100 xs t s)"
  using assms
proof (cases rule: page_in_shapes)
  case (nested obj d)
  then show ?thesis by (simp add: inline_page_def page_step_def nested_page_wf)
next
  case (direct obj)
  then show ?thesis by simp
qed

lemma generic_page_wf:
  assumes "page_in key data = Some (xs, t)"
  shows "generic_page key sz data s = Inr (page_step sz xs t s)"
  using assms
proof (cases rule: page_in_shapes)
  case (nested obj d)
  then show ?thesis by (simp add: generic_page_def page_step_def nested_page_wf)
next
  case (direct obj)
  then show ?thesis by (simp add: generic_page_def page_step_def direct_page_wf)
qed

lemma on_response_wf:
  assumes pg: "page_of key (srv (length (exchanges w)) \<lparr>url = u, headers = hs, params = ps, timeout = 30\<rparr>)
             = Some (xs, t)"
    and page: "\<And>data. page_in key data = Some (xs, t) \<Longrightarrow> page data s = Inr (page_step sz xs t s)"
  shows "on_response con page msg s (make_api_request con srv u hs (Some ps) w) =
           map_ctl (\<lambda>s'. (s', w\<lparr>exchanges := exchanges w @
                       [(\<lparr>url = u, headers = hs, params = ps, timeout = 30\<rparr>,
                         srv (length (exchanges w))
                           \<lparr>url = u, headers = hs, params = ps, timeout = 30\<rparr>)]\<rparr>))
             (page_step sz xs t s)"
proof -
  let ?req = "\<lparr>url = u, headers = hs, params = ps, timeout = 30\<rparr>"
  from pg obtain data where data: "response_body (srv (length (exchanges w)) ?req) = Some data"
    "page_in key data = Some (xs, t)"
    by (auto simp: page_of_def split: option.splits)
  from response_bodyD[OF data(1)] obtain r where
    r: "srv (length (exchanges w)) ?req = GetReturns r"
       "\<not> (400 \<le> status_code r \<and> status_code r < 600)" "json_of r = Inr data" by blast
  from make_api_request_success[where srv = srv and w = w and u = u and hs = hs
         and ps = "Some ps" and r = r and v = data and con = con] r
  have "make_api_request con srv u hs (Some ps) w =
          (Inr data, w\<lparr>exchanges := exchanges w @ [(?req, GetReturns r)]\<rparr>)" by simp
  with page[OF data(2)] r(1) show ?thesis by (simp add: on_response_def)
qed

lemma fetch_body_wf:
  assumes "page_of key (srv (length (exchanges w)) (fetch_request u hs acc sz (page_index s)))
             = Some (xs, t)"
  shows "fetch_body con srv u hs acc key sz (s, w) =
           map_ctl (\<lambda>s'. (s', w\<lparr>exchanges := exchanges w @
                       [(fetch_request u hs acc sz (page_index s),
                         srv (length (exchanges w)) (fetch_request u hs acc sz (page_index s)))]\<rparr>))
             (page_step sz xs t s)"
proof -
  have pg: "page_of key
              (srv (length (exchanges w))
                 \<lparr>url = u, headers = hs, params = [(''accountIdentifier'', PStr acc), (''page'', PInt (page_index s)), (''size'', PInt sz)], timeout = 30\<rparr>) = Some (xs, t)"
    using assms by (simp add: fetch_request_def)
  have "on_response con (generic_page key sz) msg s (make_api_request con srv (u) hs (Some ([(''accountIdentifier'', PStr acc), (''page'', PInt (page_index s)), (''size'', PInt sz)])) w) =
           map_ctl (\<lambda>s'. (s', w\<lparr>exchanges := exchanges w @
                       [(\<lparr>url = u, headers = hs, params = [(''accountIdentifier'', PStr acc), (''page'', PInt (page_index s)), (''size'', PInt sz)], timeout = 30\<rparr>,
                         srv (length (exchanges w))
                           \<lparr>url = u, headers = hs, params = [(''accountIdentifier'', PStr acc), (''page'', PInt (page_index s)), (''size'', PInt sz)], timeout = 30\<rparr>)]\<rparr>))
             (page_step sz xs t s)" for msg
    by (rule on_response_wf[where key = "key"], rule pg, rule generic_page_wf)
  then show ?thesis
    by (simp add: fetch_body_step generic_step_pure fetch_request_def)
qed

lemma get_projects_body_wf:
  assumes "page_of ''content''
             (srv (length (exchanges w)) (projects_request base hs acc org (page_index s)))
             = Some (xs, t)"
  shows "get_projects_body con srv (base @ ''/ng/api/projects'') hs acc org (s, w) =
           map_ctl (\<lambda>s'. (s', w\<lparr>exchanges := exchanges w @
                       [(projects_request base hs acc org (page_index s),
                         srv (length (exchanges w))
                           (projects_request base hs acc org (page_index s)))]\<rparr>))
             (page_step 100 xs t s)"
proof -
  have pg: "page_of ''content''
              (srv (length (exchanges w))
                 \<lparr>url = base @ ''/ng/api/projects'', headers = hs, params = [(''accountIdentifier'', PStr acc), (''orgIdentifier'', org), (''page'', PInt (page_index s)), (''size'', PInt 100)], timeout = 30\<rparr>) = Some (xs, t)"
    using assms by (simp add: projects_request_def)
  have "on_response con inline_page msg s (make_api_request con srv (base @ ''/ng/api/projects'') hs (Some ([(''accountIdentifier'', PStr acc), (''orgIdentifier'', org), (''page'', PInt (page_index s)), (''size'', PInt 100)])) w) =
           map_ctl (\<lambda>s'. (s', w\<lparr>exchanges := exchanges w @
                       [(\<lparr>url = base @ ''/ng/api/projects'', headers = hs, params = [(''accountIdentifier'', PStr acc), (''orgIdentifier'', org), (''page'', PInt (page_index s)), (''size'', PInt 100)], timeout = 30\<rparr>,
                         srv (length (exchanges w))
                           \<lparr>url = base @ ''/ng/api/projects'', headers = hs, params = [(''accountIdentifier'', PStr acc), (''orgIdentifier'', org), (''page'', PInt (page_index s)), (''size'', PInt 100)], timeout = 30\<rparr>)]\<rparr>))
             (page_step 100 xs t s)" for msg
    by (rule on_response_wf[where key = "''content''"], rule pg, rule inline_page_wf)
  then show ?thesis
    by (simp add: get_projects_body_step inline_step_pure projects_request_def)
qed

lemma get_pipelines_body_wf:
  assumes "page_of ''content''
             (srv (length (exchanges w)) (pipelines_request base hs acc org proj (page_index s)))
             = Some (xs, t)"
  shows "get_pipelines_body con srv (base @ ''/ng/api/pipelines'') hs acc org proj (s, w) =
           map_ctl (\<lambda>s'. (s', w\<lparr>exchanges := exchanges w @
                       [(pipelines_request base hs acc org proj (page_index s),
                         srv (length (exchanges w))
                           (pipelines_request base hs acc org proj (page_index s)))]\<rparr>))
             (page_step 100 xs t s)"
proof -
  have pg: "page_of ''content''
              (srv (length (exchanges w))
                 \<lparr>url = base @ ''/ng/api/pipelines'', headers = hs, params = [(''accountIdentifier'', PStr acc), (''orgIdentifier'', org), (''projectIdentifier'', proj), (''page'', PInt (page_index s)), (''size'', PInt 100)], timeout = 30\<rparr>) = Some (xs, t)"
    using assms by (simp add: pipelines_request_def)
  have "on_response con inline_page msg s (make_api_request con srv (base @ ''/ng/api/pipelines'') hs (Some ([(''accountIdentifier'', PStr acc), (''orgIdentifier'', org), (''projectIdentifier'', proj), (''page'', PInt (page_index s)), (''size'', PInt 100)])) w) =
           map_ctl (\<lambda>s'. (s', w\<lparr>exchanges := exchanges w @
                       [(\<lparr>url = base @ ''/ng/api/pipelines'', headers = hs, params = [(''accountIdentifier'', PStr acc), (''orgIdentifier'', org), (''projectIdentifier'', proj), (''page'', PInt (page_index s)), (''size'', PInt 100)], timeout = 30\<rparr>,
                         srv (length (exchanges w))
                           \<lparr>url = base @ ''/ng/api/pipelines'', headers = hs, params = [(''accountIdentifier'', PStr acc), (''orgIdentifier'', org), (''projectIdentifier'', proj), (''page'', PInt (page_index s)), (''size'', PInt 100)], timeout = 30\<rparr>)]\<rparr>))
             (page_step 100 xs t s)" for msg
    by (rule on_response_wf[where key = "''content''"], rule pg, rule inline_page_wf)
  then show ?thesis
    by (simp add: get_pipelines_body_step inline_step_pure pipelines_request_def)
qed

text \<open>The loop of a fetch, from its start, on pages that end at \<open>k\<close>.\<close>

lemma paginate_from_start:
  assumes step: "\<And>s w xs t.
        page_of key (srv (length (exchanges w)) (rq (page_index s))) = Some (xs, t) \<Longrightarrow>
        b (s, w) =
          map_ctl (\<lambda>s'. (s', w\<lparr>exchanges := exchanges w @
                      [(rq (page_index s), srv (length (exchanges w)) (rq (page_index s)))]\<rparr>))
            (page_step sz xs t s)"
    and sz: "0 < sz"
    and ends: "ends_at sz key (served srv rq (length (exchanges w))) k"
  shows "\<exists>s'. py_while more_pages b (pstate0, w) =
                Some (Inr (s', w\<lparr>exchanges := exchanges w @
                              exchanges_upto rq (served srv rq (length (exchanges w))) k\<rparr>))
            \<and> all_items s' = concat (pages_upto key (served srv rq (length (exchanges w))) k)"
proof -
  let ?resp = "served srv rq (length (exchanges w))"
  from ends have wf: "\<forall>i\<le>k. page_of key (?resp i) \<noteq> None"
    and last: "last_page sz key ?resp k"
    and first: "\<forall>j<k. \<not> last_page sz key ?resp j"
    by (auto simp: ends_at_def list_all_iff simp del: upt_Suc)
  from paginate_run[of key srv rq b sz k "length (exchanges w)" 0 pstate0 w,
                    OF step sz wf last first]
  show ?thesis
    by (simp add: pstate0_def py_int_lt_def exchanges_upto_def pages_upto_def del: upt_Suc)
qed

lemma ends_at_first_short:
  assumes "ends_at sz key resp k" and "int (length (page_items key (resp j))) < sz"
  shows "k \<le> j"
proof (rule ccontr)
  assume "\<not> k \<le> j"
  then have "j < k" by simp
  with assms(1) have "\<not> last_page sz key resp j"
    by (auto simp: ends_at_def list_all_iff)
  with assms(2) show False by (simp add: last_page_def)
qed

lemma fetch_all_concat:
  assumes sz: "0 < (case sz of None \<Rightarrow> 100 | Some n \<Rightarrow> n)"
    and ends: "ends_at (case sz of None \<Rightarrow> 100 | Some n \<Rightarrow> n) key
                 (served srv (fetch_request u hs acc (case sz of None \<Rightarrow> 100 | Some n \<Rightarrow> n))
                    (length (exchanges w))) k"
  shows "\<exists>w'. fetch_all_with_pagination con srv u hs acc key sz w =
                Some (Inr (concat (pages_upto key
                  (served srv (fetch_request u hs acc (case sz of None \<Rightarrow> 100 | Some n \<Rightarrow> n))
                    (length (exchanges w))) k)), w')
            \<and> exchanges w' = exchanges w @
                exchanges_upto (fetch_request u hs acc (case sz of None \<Rightarrow> 100 | Some n \<Rightarrow> n))
                  (served srv (fetch_request u hs acc (case sz of None \<Rightarrow> 100 | Some n \<Rightarrow> n))
                    (length (exchanges w))) k"
proof -
  let ?sz = "case sz of None \<Rightarrow> 100 | Some n \<Rightarrow> n"
  have step: "\<And>s w xs t.
        page_of key (srv (length (exchanges w)) (fetch_request u hs acc ?sz (page_index s)))
          = Some (xs, t) \<Longrightarrow>
        fetch_body con srv u hs acc key ?sz (s, w) =
          map_ctl (\<lambda>s'. (s', w\<lparr>exchanges := exchanges w @
                      [(fetch_request u hs acc ?sz (page_index s),
                        srv (length (exchanges w)) (fetch_request u hs acc ?sz (page_index s)))]\<rparr>))
            (page_step ?sz xs t s)"
    by (rule fetch_body_wf)
  from paginate_from_start[where b = "fetch_body con srv u hs acc key ?sz"
         and rq = "fetch_request u hs acc ?sz", OF step sz ends]
  show ?thesis
    by (auto simp: fetch_all_with_pagination_def loop_result_def Let_def)
qed

lemma get_projects_concat:
  assumes wr: "writable con"
    and ends: "ends_at 100 ''content''
                 (served srv (projects_request base hs acc org) (length (exchanges w))) k"
  shows "\<exists>w'. get_projects con srv base hs acc org w =
                Some (Inr (concat (pages_upto ''content''
                  (served srv (projects_request base hs acc org) (length (exchanges w))) k)), w')
            \<and> exchanges w' = exchanges w @
                exchanges_upto (projects_request base hs acc org)
                  (served srv (projects_request base hs acc org) (length (exchanges w))) k"
proof -
  let ?w = "written [Lit ''Fetching projects for organization: '', Val org, Lit ''...''] w"
  have step: "\<And>s w xs t.
        page_of ''content'' (srv (length (exchanges w)) (projects_request base hs acc org (page_index s)))
          = Some (xs, t) \<Longrightarrow>
        get_projects_body con srv (base @ ''/ng/api/projects'') hs acc org (s, w) =
          map_ctl (\<lambda>s'. (s', w\<lparr>exchanges := exchanges w @
                      [(projects_request base hs acc org (page_index s),
                        srv (length (exchanges w)) (projects_request base hs acc org (page_index s)))]\<rparr>))
            (page_step 100 xs t s)"
    by (rule get_projects_body_wf)
  have ends': "ends_at 100 ''content''
                 (served srv (projects_request base hs acc org) (length (exchanges ?w))) k"
    using ends by simp
  from paginate_from_start[where b = "get_projects_body con srv (base @ ''/ng/api/projects'') hs acc org"
         and rq = "projects_request base hs acc org" and w = ?w, OF step _ ends']
  show ?thesis
    by (auto simp: get_projects_def Let_def print_writable[OF wr])
qed

lemma get_pipelines_concat:
  assumes wr: "writable con"
    and ends: "ends_at 100 ''content''
                 (served srv (pipelines_request base hs acc org proj) (length (exchanges w))) k"
  shows "\<exists>w'. get_pipelines con srv base hs acc org proj w =
                Some (Inr (concat (pages_upto ''content''
                  (served srv (pipelines_request base hs acc org proj) (length (exchanges w))) k)), w')
            \<and> exchanges w' = exchanges w @
                exchanges_upto (pipelines_request base hs acc org proj)
                  (served srv (pipelines_request base hs acc org proj) (length (exchanges w))) k"
proof -
  let ?w = "written [Lit ''Fetching pipelines for project: '', Val proj,
                     Lit '' in org: '', Val org, Lit ''...''] w"
  have step: "\<And>s w xs t.
        page_of ''content'' (srv (length (exchanges w)) (pipelines_request base hs acc org proj (page_index s)))
          = Some (xs, t) \<Longrightarrow>
        get_pipelines_body con srv (base @ ''/ng/api/pipelines'') hs acc org proj (s, w) =
          map_ctl (\<lambda>s'. (s', w\<lparr>exchanges := exchanges w @
                      [(pipelines_request base hs acc org proj (page_index s),
                        srv (length (exchanges w)) (pipelines_request base hs acc org proj (page_index s)))]\<rparr>))
            (page_step 100 xs t s)"
    by (rule get_pipelines_body_wf)
  have ends': "ends_at 100 ''content''
                 (served srv (pipelines_request base hs acc org proj) (length (exchanges ?w))) k"
    using ends by simp
  from paginate_from_start[where b = "get_pipelines_body con srv (base @ ''/ng/api/pipelines'') hs acc org proj"
         and rq = "pipelines_request base hs acc org proj" and w = ?w, OF step _ ends']
  show ?thesis
    by (auto simp: get_pipelines_def Let_def print_writable[OF wr])
qed

text \<open>
  C4. Let the answers to a paginated fetch be well-formed pages up to page \<open>k\<close>, the first
  last page (the first that is short, or after which the next index is not below the
  total carried). Then the fetch returns; what it returns is the concatenation, in order,
  of the item lists of the pages 0 to \<open>k\<close>, which are exactly the pages it requested, once
  each and in order; the length of the result is the sum of the lengths of these lists;
  and no page after the first short page is requested, since \<open>k\<close> is at most the index of
  any short page. This holds of \<open>fetch_all_with_pagination\<close> with the default page size
  100, for pages of either shape (nested at \<^verbatim>\<open>data.<key>\<close>, or directly at \<^verbatim>\<open>data\<close> for
  the key \<^verbatim>\<open>"data_list_direct"\<close>) and whatever the console; and of \<open>get_projects\<close> and
  \<open>get_pipelines\<close>, which print a line before and after their loops, when these lines can
  be written.
\<close>

theorem paginated_fetch_concatenates:
  "(ends_at 100 key (served srv (fetch_request u hs acc 100) (length (exchanges w))) k \<longrightarrow>
      (\<exists>w'. fetch_all_with_pagination con srv u hs acc key None w =
               Some (Inr (concat (pages_upto key (served srv (fetch_request u hs acc 100) (length (exchanges w))) k)), w')
           \<and> exchanges w' = exchanges w @ exchanges_upto (fetch_request u hs acc 100) (served srv (fetch_request u hs acc 100) (length (exchanges w))) k)
      \<and> length (concat (pages_upto key (served srv (fetch_request u hs acc 100) (length (exchanges w))) k)) =
          sum_list (map length (pages_upto key (served srv (fetch_request u hs acc 100) (length (exchanges w))) k))
      \<and> (\<forall>j. length (page_items key (served srv (fetch_request u hs acc 100) (length (exchanges w)) j)) < 100 \<longrightarrow> k \<le> j))
   \<and> (writable con \<and> ends_at 100 ''content'' (served srv (projects_request base hs acc org) (length (exchanges w))) k \<longrightarrow>
      (\<exists>w'. get_projects con srv base hs acc org w =
               Some (Inr (concat (pages_upto ''content'' (served srv (projects_request base hs acc org) (length (exchanges w))) k)), w')
           \<and> exchanges w' = exchanges w @ exchanges_upto (projects_request base hs acc org) (served srv (projects_request base hs acc org) (length (exchanges w))) k)
      \<and> length (concat (pages_upto ''content'' (served srv (projects_request base hs acc org) (length (exchanges w))) k)) =
          sum_list (map length (pages_upto ''content'' (served srv (projects_request base hs acc org) (length (exchanges w))) k))
      \<and> (\<forall>j. length (page_items ''content'' (served srv (projects_request base hs acc org) (length (exchanges w)) j)) < 100 \<longrightarrow> k \<le> j))
   \<and> (writable con \<and> ends_at 100 ''content'' (served srv (pipelines_request base hs acc org proj) (length (exchanges w))) k \<longrightarrow>
      (\<exists>w'. get_pipelines con srv base hs acc org proj w =
               Some (Inr (concat (pages_upto ''content'' (served srv (pipelines_request base hs acc org proj) (length (exchanges w))) k)), w')
           \<and> exchanges w' = exchanges w @ exchanges_upto (pipelines_request base hs acc org proj) (served srv (pipelines_request base hs acc org proj) (length (exchanges w))) k)
      \<and> length (concat (pages_upto ''content'' (served srv (pipelines_request base hs acc org proj) (length (exchanges w))) k)) =
          sum_list (map length (pages_upto ''content'' (served srv (pipelines_request base hs acc org proj) (length (exchanges w))) k))
      \<and> (\<forall>j. length (page_items ''content'' (served srv (pipelines_request base hs acc org proj) (length (exchanges w)) j)) < 100 \<longrightarrow> k \<le> j))"
proof (intro conjI impI)
  assume e: "ends_at 100 key (served srv (fetch_request u hs acc 100) (length (exchanges w))) k"
  from fetch_all_concat[where sz = None and con = con, simplified, OF e]
  show "\<exists>w'. fetch_all_with_pagination con srv u hs acc key None w =
               Some (Inr (concat (pages_upto key
                 (served srv (fetch_request u hs acc 100) (length (exchanges w))) k)), w')
           \<and> exchanges w' = exchanges w @ exchanges_upto (fetch_request u hs acc 100)
                 (served srv (fetch_request u hs acc 100) (length (exchanges w))) k" .
  from ends_at_first_short[OF e]
  show "\<forall>j. length (page_items key
               (served srv (fetch_request u hs acc 100) (length (exchanges w)) j)) < 100
             \<longrightarrow> k \<le> j" by simp
next
  assume "writable con \<and> ends_at 100 ''content''
               (served srv (projects_request base hs acc org) (length (exchanges w))) k"
  then have wr: "writable con" and e: "ends_at 100 ''content''
               (served srv (projects_request base hs acc org) (length (exchanges w))) k"
    by simp_all
  from get_projects_concat[OF wr e]
  show "\<exists>w'. get_projects con srv base hs acc org w =
               Some (Inr (concat (pages_upto ''content''
                 (served srv (projects_request base hs acc org) (length (exchanges w))) k)), w')
           \<and> exchanges w' = exchanges w @ exchanges_upto (projects_request base hs acc org)
                 (served srv (projects_request base hs acc org) (length (exchanges w))) k" .
  from ends_at_first_short[OF e]
  show "\<forall>j. length (page_items ''content''
               (served srv (projects_request base hs acc org) (length (exchanges w)) j)) < 100
             \<longrightarrow> k \<le> j" by simp
next
  assume "writable con \<and> ends_at 100 ''content''
               (served srv (pipelines_request base hs acc org proj) (length (exchanges w))) k"
  then have wr: "writable con" and e: "ends_at 100 ''content''
               (served srv (pipelines_request base hs acc org proj) (length (exchanges w))) k"
    by simp_all
  from get_pipelines_concat[OF wr e]
  show "\<exists>w'. get_pipelines con srv base hs acc org proj w =
               Some (Inr (concat (pages_upto ''content''
                 (served srv (pipelines_request base hs acc org proj) (length (exchanges w))) k)), w')
           \<and> exchanges w' = exchanges w @ exchanges_upto (pipelines_request base hs acc org proj)
                 (served srv (pipelines_request base hs acc org proj) (length (exchanges w))) k" .
  from ends_at_first_short[OF e]
  show "\<forall>j. length (page_items ''content''
               (served srv (pipelines_request base hs acc org proj) (length (exchanges w)) j)) < 100
             \<longrightarrow> k \<le> j" by simp
qed (simp_all add: length_concat)

lemma two_page_ends:
  "ends_at 100 ''content'' (served two_page_server (fetch_request ''u'' [] ''acc'' 100) 0) (Suc 0)"
  "ends_at 100 ''content''
     (served two_page_server (projects_request ''h'' [] ''acc'' (PStr ''o'')) 0) (Suc 0)"
  "ends_at 100 ''content''
     (served two_page_server (pipelines_request ''h'' [] ''acc'' (PStr ''o'') (PStr ''p'')) 0) (Suc 0)"
  by (simp_all add: ends_at_def last_page_def page_items_def page_total_def page_of_def
      page_in_def response_body_def served_def two_page_server_def ok_response_def
      fetch_request_def projects_request_def pipelines_request_def py_int_lt_def)

lemma two_page_items:
  "concat (pages_upto ''content'' (served two_page_server (fetch_request ''u'' [] ''acc'' 100) 0)
     (Suc 0)) = replicate 100 (PStr ''x'') @ [PStr ''y'']"
  "concat (pages_upto ''content''
     (served two_page_server (projects_request ''h'' [] ''acc'' (PStr ''o'')) 0) (Suc 0))
     = replicate 100 (PStr ''x'') @ [PStr ''y'']"
  "concat (pages_upto ''content''
     (served two_page_server (pipelines_request ''h'' [] ''acc'' (PStr ''o'') (PStr ''p'')) 0)
     (Suc 0)) = replicate 100 (PStr ''x'') @ [PStr ''y'']"
  by (simp_all add: pages_upto_def page_items_def page_of_def
      page_in_def response_body_def served_def two_page_server_def ok_response_def
      fetch_request_def projects_request_def pipelines_request_def)

lemma direct_page_ends:
  "ends_at 100 ''data_list_direct''
     (served direct_page_server (fetch_request ''u'' [] ''acc'' 100) 0) (Suc 0)"
  by (simp add: ends_at_def last_page_def page_items_def page_total_def page_of_def
      page_in_def response_body_def served_def direct_page_server_def ok_response_def
      fetch_request_def py_int_lt_def)

lemma direct_page_items:
  "concat (pages_upto ''data_list_direct''
     (served direct_page_server (fetch_request ''u'' [] ''acc'' 100) 0) (Suc 0))
   = replicate 100 (PStr ''x'') @ [PStr ''y'']"
  by (simp add: pages_upto_def page_items_def page_of_def
      page_in_def response_body_def served_def direct_page_server_def ok_response_def
      fetch_request_def)

theorem paginated_fetch_concatenates_witness:
  "(\<exists>w'. fetch_all_with_pagination accepting two_page_server ''u'' [] ''acc'' ''content'' None w0 =
           Some (Inr (replicate 100 (PStr ''x'') @ [PStr ''y'']), w')
        \<and> length (exchanges w') = 2)
   \<and> (\<exists>w'. fetch_all_with_pagination accepting direct_page_server ''u'' [] ''acc''
             ''data_list_direct'' None w0 =
           Some (Inr (replicate 100 (PStr ''x'') @ [PStr ''y'']), w')
        \<and> length (exchanges w') = 2)
   \<and> (\<exists>w'. get_projects accepting two_page_server ''h'' [] ''acc'' (PStr ''o'') w0 =
           Some (Inr (replicate 100 (PStr ''x'') @ [PStr ''y'']), w')
        \<and> length (exchanges w') = 2)
   \<and> (\<exists>w'. get_pipelines accepting two_page_server ''h'' [] ''acc'' (PStr ''o'') (PStr ''p'') w0 =
           Some (Inr (replicate 100 (PStr ''x'') @ [PStr ''y'']), w')
        \<and> length (exchanges w') = 2)"
  using paginated_fetch_concatenates
          [where srv = two_page_server and u = "''u''" and hs = "[]" and acc = "''acc''"
             and key = "''content''" and base = "''h''" and org = "PStr ''o''"
             and proj = "PStr ''p''" and w = w0 and k = "Suc 0" and con = accepting]
        paginated_fetch_concatenates
          [where srv = direct_page_server and u = "''u''" and hs = "[]" and acc = "''acc''"
             and key = "''data_list_direct''" and base = "''h''" and org = "PStr ''o''"
             and proj = "PStr ''p''" and w = w0 and k = "Suc 0" and con = accepting]
        two_page_ends two_page_items direct_page_ends direct_page_items
  by (auto simp: w0_def exchanges_upto_def)

text \<open>
  C3. When the \<^verbatim>\<open>data\<close> object of the response to the probe has neither total, has a
  list as \<^verbatim>\<open>content\<close> and declares a \<^verbatim>\<open>totalPages\<close> greater than 1, \<open>get_pipeline_count\<close>
  does what \<open>get_pipelines\<close> does after the probe and turns the list it returns into its
  length (an exception, or a fetch that never ends, is passed on). And when the answers to
  that full fetch are well-formed pages that end at page \<open>k\<close>, the count returned is the sum
  of the numbers of items of the pages 0 to \<open>k\<close>, and the requests made are the probe and
  one request for each of these pages. The lines printed on the way are taken to be
  written.
\<close>

theorem count_by_full_fetch:
  assumes "writable con"
    and "probe_data (srv (length (exchanges w)) (count_request base hs acc org proj)) = Some d"
    and "total_field d = None"
    and "map_of d ''content'' = Some (PList xs)"
    and "map_of d ''totalPages'' = Some t"
    and "py_int_lt 1 t = Inr True"
  shows "(\<exists>w2. exchanges w2 = exchanges w @
                  [(count_request base hs acc org proj,
                    srv (length (exchanges w)) (count_request base hs acc org proj))]
            \<and> get_pipeline_count con srv base hs acc org proj w =
                map_option count_of_list (get_pipelines con srv base hs acc org proj w2))
       \<and> (ends_at 100 ''content''
             (served srv (pipelines_request base hs acc org proj) (Suc (length (exchanges w)))) k
           \<longrightarrow>
           (\<exists>w'. get_pipeline_count con srv base hs acc org proj w =
                    Some (Inr (PInt (int (sum_list (map length
                      (pages_upto ''content''
                         (served srv (pipelines_request base hs acc org proj)
                            (Suc (length (exchanges w)))) k))))), w')
               \<and> exchanges w' = exchanges w @
                    (count_request base hs acc org proj,
                     srv (length (exchanges w)) (count_request base hs acc org proj)) #
                    exchanges_upto (pipelines_request base hs acc org proj)
                      (served srv (pipelines_request base hs acc org proj)
                         (Suc (length (exchanges w)))) k))"
proof -
  from count_falls_back[where srv = srv and w = w and con = con, OF assms] obtain w2 where
    w2: "exchanges w2 = exchanges w @
           [(count_request base hs acc org proj,
             srv (length (exchanges w)) (count_request base hs acc org proj))]"
        "get_pipeline_count con srv base hs acc org proj w =
           map_option count_of_list (get_pipelines con srv base hs acc org proj w2)"
    by blast
  have "\<exists>w'. get_pipeline_count con srv base hs acc org proj w =
                    Some (Inr (PInt (int (sum_list (map length
                      (pages_upto ''content''
                         (served srv (pipelines_request base hs acc org proj)
                            (Suc (length (exchanges w)))) k))))), w')
               \<and> exchanges w' = exchanges w @
                    (count_request base hs acc org proj,
                     srv (length (exchanges w)) (count_request base hs acc org proj)) #
                    exchanges_upto (pipelines_request base hs acc org proj)
                      (served srv (pipelines_request base hs acc org proj)
                         (Suc (length (exchanges w)))) k"
    if e: "ends_at 100 ''content''
             (served srv (pipelines_request base hs acc org proj) (Suc (length (exchanges w)))) k"
  proof -
    from e w2(1) have "ends_at 100 ''content''
             (served srv (pipelines_request base hs acc org proj) (length (exchanges w2))) k"
      by simp
    from get_pipelines_concat[OF assms(1) this] w2 show ?thesis
      by (auto simp: count_of_list_def length_concat)
  qed
  with w2 show ?thesis by blast
qed

lemma three_page_ends:
  "ends_at 100 ''content''
     (served three_page_server (pipelines_request ''h'' [] ''acc'' (PStr ''o'') (PStr ''p'')) (Suc 0))
     (Suc (Suc 0))"
  by (simp add: ends_at_def last_page_def page_items_def page_total_def page_of_def
      page_in_def response_body_def served_def three_page_server_def ok_response_def
      pipelines_request_def py_int_lt_def)

lemma three_page_sum:
  "sum_list (map length (pages_upto ''content''
     (served three_page_server (pipelines_request ''h'' [] ''acc'' (PStr ''o'') (PStr ''p'')) (Suc 0))
     (Suc (Suc 0)))) = 205"
  by (simp add: pages_upto_def page_items_def page_of_def
      page_in_def response_body_def served_def three_page_server_def ok_response_def
      pipelines_request_def)

theorem count_by_full_fetch_witness:
  "\<exists>w'. get_pipeline_count accepting three_page_server ''h'' [] ''acc'' (PStr ''o'') (PStr ''p'') w0 =
          Some (Inr (PInt 205), w')
      \<and> length (exchanges w') = 4"
  using count_by_full_fetch
          [where srv = three_page_server and w = w0 and base = "''h''" and hs = "[]"
             and acc = "''acc''" and org = "PStr ''o''" and proj = "PStr ''p''"
             and d = "[(''content'', PList [PStr ''x'']), (''totalPages'', PInt 3)]"
             and xs = "[PStr ''x'']" and t = "PInt 3" and k = "Suc (Suc 0)"
             and con = accepting]
        three_page_ends three_page_sum
  by (auto simp: w0_def exchanges_upto_def probe_data_def total_field_def count_request_def
      three_page_server_def ok_response_def py_int_lt_def)

text \<open>
  Why C4 asks for a last page: a loop whose body always comes to its end with the test
  still true never returns, and this is what the pagination loops do against a server
  that keeps sending full pages and raising the total.
\<close>

lemma py_while_diverges:
  assumes step: "\<And>s. I s \<Longrightarrow> c s = Inr True \<and> (\<exists>s'. b s = Continue s' \<and> I s')"
    and start: "I s"
  shows "py_while c b s = None"
proof (cases "py_while c b s")
  case (Some r)
  then have "\<not> I s"
  proof (induction rule: py_while_induct)
    case (Test_raises s e)
    with step[of s] show ?case by auto
  next
    case (Exit s)
    with step[of s] show ?case by auto
  next
    case (Break s s')
    with step[of s] show ?case by auto
  next
    case (Raise s e s')
    with step[of s] show ?case by auto
  next
    case (Continue s s' r)
    with step[of s] show ?case by auto
  qed
  with start show ?thesis by simp
qed simp

lemma get_projects_never_returns:
  "get_projects accepting growing_server base hs acc org w0 = None"
proof -
  let ?b = "get_projects_body accepting growing_server (base @ ''/ng/api/projects'') hs acc org"
  let ?I = "\<lambda>sw. total_pages (fst sw) = PInt (page_index (fst sw) + 1)
                 \<and> page_index (fst sw) = int (length (exchanges (snd sw)))"
  have step: "more_pages sw = Inr True \<and> (\<exists>sw'. ?b sw = Continue sw' \<and> ?I sw')" if "?I sw" for sw
  proof -
    obtain s w where sw: "sw = (s, w)" by (cases sw)
    have pg: "page_of ''content''
                (growing_server (length (exchanges w)) (projects_request base hs acc org (page_index s)))
              = Some (replicate 100 (PStr ''x''), Some (PInt (int (length (exchanges w)) + 2)))"
      by (simp add: page_of_def page_in_def response_body_def growing_server_def ok_response_def)
    have ge: "py_int_ge (page_index s + 1) (PInt (int (length (exchanges w)) + 2)) = Inr False"
      using that sw by (simp add: py_int_ge_def)
    have "?b (s, w) =
            Continue (s\<lparr>all_items := all_items s @ replicate 100 (PStr ''x''),
                        total_pages := PInt (int (length (exchanges w)) + 2),
                        page_index := page_index s + 1\<rparr>,
                      w\<lparr>exchanges := exchanges w @
                        [(projects_request base hs acc org (page_index s),
                          growing_server (length (exchanges w))
                            (projects_request base hs acc org (page_index s)))]\<rparr>)"
      using get_projects_body_wf[where srv = growing_server and w = w and s = s
              and con = accepting, OF pg] page_step_full[of "replicate 100 (PStr ''x'')" 100
              "Some (PInt (int (length (exchanges w)) + 2))" s] ge
      by simp
    moreover have "more_pages (s, w) = Inr True"
      using that sw by (simp add: more_pages_def py_int_lt_def)
    ultimately show ?thesis using that sw by simp
  qed
  have "py_while more_pages ?b
          (pstate0, written [Lit ''Fetching projects for organization: '', Val org, Lit ''...''] w0)
        = None"
    by (rule py_while_diverges[where I = ?I, OF step])
       (simp_all add: pstate0_def w0_def)
  then show ?thesis by (simp add: get_projects_def)
qed

section \<open>Rows of the report\<close>

lemma py_get_value:
  "py_get x k d = Inr v \<Longrightarrow>
   \<exists>kvs. x = PDict kvs \<and> v = (case map_of kvs k of None \<Rightarrow> d | Some y \<Rightarrow> y)"
  by (cases x) (auto split: option.splits)

lemma entry_field_value:
  assumes "entry_field e k f dflt = Inr v"
  shows "\<exists>obj d. e = PDict obj
           \<and> (case map_of obj k of None \<Rightarrow> PDict [] | Some y \<Rightarrow> y) = PDict d
           \<and> v = (case map_of d f of None \<Rightarrow> dflt | Some y \<Rightarrow> y)"
proof -
  from assms obtain x where x: "py_get e k (PDict []) = Inr x" "py_get x f dflt = Inr v"
    by (auto simp: entry_field_def split: sum.splits)
  from py_get_value[OF x(1)] obtain obj where
    obj: "e = PDict obj" "x = (case map_of obj k of None \<Rightarrow> PDict [] | Some y \<Rightarrow> y)" by blast
  from py_get_value[OF x(2)] obtain d where
    d: "x = PDict d" "v = (case map_of d f of None \<Rightarrow> dflt | Some y \<Rightarrow> y)" by blast
  have "(case map_of obj k of None \<Rightarrow> PDict [] | Some y \<Rightarrow> y) = PDict d"
    using obj(2) d(1) by simp
  with obj(1) d(2) show ?thesis by blast
qed

lemma entry_field_identifier:
  assumes "entry_field e k ''identifier'' PNone = Inr v"
  shows "entry_identifier k e = (if truthy v then Some v else None)"
proof -
  from entry_field_value[OF assms] obtain obj d where
    *: "e = PDict obj" "(case map_of obj k of None \<Rightarrow> PDict [] | Some y \<Rightarrow> y) = PDict d"
       "v = (case map_of d ''identifier'' of None \<Rightarrow> PNone | Some y \<Rightarrow> y)" by blast
  then show ?thesis
    by (cases "map_of obj k"; cases "map_of d ''identifier''")
       (auto simp: entry_identifier_def)
qed

lemma entry_field_name:
  assumes "entry_field e k ''identifier'' PNone = Inr v" and "truthy v"
    and "entry_field e k ''name'' v = Inr nm"
  shows "entry_name k e = Some nm"
proof -
  from entry_field_value[OF assms(1)] obtain obj d where
    *: "e = PDict obj" "(case map_of obj k of None \<Rightarrow> PDict [] | Some y \<Rightarrow> y) = PDict d"
       "v = (case map_of d ''identifier'' of None \<Rightarrow> PNone | Some y \<Rightarrow> y)" by blast
  from entry_field_value[OF assms(3)] * have
    nm: "nm = (case map_of d ''name'' of None \<Rightarrow> v | Some y \<Rightarrow> y)" by auto
  from * assms(2) have "map_of obj k = Some (PDict d)" "map_of d ''identifier'' = Some v"
    by (cases "map_of obj k"; cases "map_of d ''identifier''"; auto)+
  with * nm show ?thesis
    by (cases "map_of d ''name''") (auto simp: entry_name_def)
qed

lemma entry_identifier_field:
  assumes "entry_identifier k e = Some v"
  shows "entry_field e k ''identifier'' PNone = Inr v" and "truthy v"
    and "\<exists>nm. entry_field e k ''name'' v = Inr nm \<and> entry_name k e = Some nm"
  using assms
  by (auto simp: entry_identifier_def entry_name_def entry_field_def
      split: pyval.splits option.splits if_splits)

lemma entry_ok_field:
  assumes "entry_ok k e"
  shows "\<exists>v. entry_field e k ''identifier'' PNone = Inr v
           \<and> (\<exists>nm. entry_field e k ''name'' v = Inr nm)"
proof -
  from assms obtain obj where obj: "e = PDict obj"
    by (cases e) (auto simp: entry_ok_def)
  show ?thesis
  proof (cases "map_of obj k")
    case None
    with obj show ?thesis by (simp add: entry_field_def)
  next
    case (Some x)
    with assms obj obtain d where d: "x = PDict d" by (cases x) (auto simp: entry_ok_def)
    with obj Some show ?thesis
      by (cases "map_of d ''identifier''"; cases "map_of d ''name''")
         (simp_all add: entry_field_def)
  qed
qed

text \<open>One step of the inner loop that returns: on an entry without an identifier, and on
  an entry with one.\<close>

lemma project_step_unidentified:
  assumes "entry_identifier ''project'' p = None"
    and "project_step con srv fadd base hs acc oid oname p (m, w) = Some (Inr (m', w'))"
  shows "m' = m"
proof -
  from assms(2) obtain v where v: "entry_field p ''project'' ''identifier'' PNone = Inr v"
    by (cases "entry_field p ''project'' ''identifier'' PNone")
       (auto simp: project_step_def)
  with assms(1) entry_field_identifier[OF v] have nt: "\<not> truthy v" by (auto split: if_splits)
  from assms(2) v obtain nm where "entry_field p ''project'' ''name'' v = Inr nm"
    by (cases "entry_field p ''project'' ''name'' v") (auto simp: project_step_def)
  with assms(2) v nt show ?thesis
    by (auto simp: project_step_def print_def split: option.splits)
qed

lemma project_step_identified:
  assumes id: "entry_identifier ''project'' p = Some pid"
    and ret: "project_step con srv fadd base hs acc oid oname p (m, w) = Some (Inr (m', w'))"
  shows "\<exists>pname c w1 w2. entry_name ''project'' p = Some pname
           \<and> get_pipeline_count con srv base hs acc oid pid w1 = Some (Inr c, w2)
           \<and> all_pipeline_data m' = all_pipeline_data m @
                [PDict [(''Project'', pname), (''Organization'', oname), (''Pipeline Count'', c)]]
           \<and> processed_project_count m' = processed_project_count m + 1
           \<and> processed_org_count m' = processed_org_count m"
proof -
  from entry_identifier_field[OF id] obtain pname where
    f: "entry_field p ''project'' ''identifier'' PNone = Inr pid" "truthy pid"
       "entry_field p ''project'' ''name'' pid = Inr pname" "entry_name ''project'' p = Some pname"
    by blast
  let ?line = "[Lit ''  Processing Project: '', Val pname, Lit '' (ID: '', Val pid, Lit '')'']"
  from ret f have p1: "con ?line = None"
    by (auto simp: project_step_def Let_def print_def split: option.splits)
  let ?w1 = "written ?line w"
  let ?m1 = "m\<lparr>processed_project_count := processed_project_count m + 1\<rparr>"
  from ret f p1 obtain c w2 where
    cnt: "get_pipeline_count con srv base hs acc oid pid ?w1 = Some (Inr c, w2)"
    by (cases "get_pipeline_count con srv base hs acc oid pid ?w1")
       (auto simp: project_step_def Let_def print_def split: sum.splits)
  let ?m2 = "?m1\<lparr>all_pipeline_data := all_pipeline_data m @
               [PDict [(''Project'', pname), (''Organization'', oname), (''Pipeline Count'', c)]]\<rparr>"
  from ret f p1 cnt obtain t where
    add: "py_add fadd (processed_pipeline_count m) c = Inr t"
    by (cases "py_add fadd (processed_pipeline_count m) c")
       (auto simp: project_step_def Let_def print_def)
  from ret f p1 cnt add have "m' = ?m2\<lparr>processed_pipeline_count := t\<rparr>"
    by (auto simp: project_step_def Let_def print_def split: option.splits if_splits)
  with f(4) cnt show ?thesis by auto
qed

text \<open>The counts that go with the projects of a list: each has been computed for its
  project.\<close>

lemma py_for_Cons_Inr:
  assumes "py_for b (x # xs) s = Some (Inr s')"
  obtains s1 where "b x s = Some (Inr s1)" "py_for b xs s1 = Some (Inr s')"
  using assms by (auto split: option.splits sum.splits)

lemma project_loop_rows:
  "py_for (project_step con srv fadd base hs acc oid oname) ps (m, w) = Some (Inr (m', w')) \<Longrightarrow>
   \<exists>cs. list_all2
          (\<lambda>p c. \<exists>w1 w2. get_pipeline_count con srv base hs acc oid
                             (the (entry_identifier ''project'' p)) w1 = Some (Inr c, w2))
          (identified ps) cs
      \<and> all_pipeline_data m' = all_pipeline_data m @
           map2 (\<lambda>p c. PDict [(''Project'', the (entry_name ''project'' p)),
                               (''Organization'', oname), (''Pipeline Count'', c)])
             (identified ps) cs
      \<and> processed_project_count m' = processed_project_count m + int (length (identified ps))
      \<and> processed_org_count m' = processed_org_count m"
proof (induction ps arbitrary: m w)
  case Nil
  then show ?case by (simp add: identified_def)
next
  case (Cons p ps)
  from Cons.prems obtain mw1 where
    step: "project_step con srv fadd base hs acc oid oname p (m, w) = Some (Inr mw1)"
    and rest: "py_for (project_step con srv fadd base hs acc oid oname) ps mw1 = Some (Inr (m', w'))"
    by (rule py_for_Cons_Inr)
  obtain m1 w1 where mw1: "mw1 = (m1, w1)" by (cases mw1)
  from Cons.IH[OF rest[unfolded mw1]] obtain cs where
    cs: "list_all2
          (\<lambda>p c. \<exists>w1 w2. get_pipeline_count con srv base hs acc oid
                             (the (entry_identifier ''project'' p)) w1 = Some (Inr c, w2))
          (identified ps) cs"
        "all_pipeline_data m' = all_pipeline_data m1 @
           map2 (\<lambda>p c. PDict [(''Project'', the (entry_name ''project'' p)),
                               (''Organization'', oname), (''Pipeline Count'', c)])
             (identified ps) cs"
        "processed_project_count m' = processed_project_count m1 + int (length (identified ps))"
        "processed_org_count m' = processed_org_count m1"
    by blast
  show ?case
  proof (cases "entry_identifier ''project'' p")
    case None
    from project_step_unidentified[OF None step[unfolded mw1]] have "m1 = m" .
    with cs None show ?thesis by (auto simp: identified_def)
  next
    case (Some pid)
    from project_step_identified[OF Some step[unfolded mw1]] obtain pname c wa wb where
      c: "entry_name ''project'' p = Some pname"
         "get_pipeline_count con srv base hs acc oid pid wa = Some (Inr c, wb)"
         "all_pipeline_data m1 = all_pipeline_data m @
            [PDict [(''Project'', pname), (''Organization'', oname), (''Pipeline Count'', c)]]"
         "processed_project_count m1 = processed_project_count m + 1"
         "processed_org_count m1 = processed_org_count m"
      by blast
    have idp: "identified (p # ps) = p # identified ps"
      using Some by (simp add: identified_def)
    show ?thesis
      using cs c Some unfolding idp
      by (intro exI[of _ "c # cs"]) auto
  qed
qed

text \<open>The step of the outer loop, for an organization that has an identifier.\<close>

lemma org_step_rows:
  assumes id: "entry_identifier ''organization'' org_data = Some oid"
    and nm: "entry_name ''organization'' org_data = Some oname"
    and ret: "org_step con srv fadd base hs acc n org_data (m, w) = Some (Inr (m', w'))"
  shows "\<exists>projects cs w1 w2.
           exchanges w1 = exchanges w
         \<and> get_projects con srv base hs acc oid w1 = Some (Inr projects, w2)
         \<and> list_all2
             (\<lambda>p c. \<exists>w1 w2. get_pipeline_count con srv base hs acc oid
                                (the (entry_identifier ''project'' p)) w1 = Some (Inr c, w2))
             (identified projects) cs
         \<and> all_pipeline_data m' = all_pipeline_data m @
             map2 (\<lambda>p c. PDict [(''Project'', the (entry_name ''project'' p)),
                                 (''Organization'', oname), (''Pipeline Count'', c)])
               (identified projects) cs
         \<and> processed_project_count m' =
             processed_project_count m + int (length (identified projects))
         \<and> processed_org_count m' = processed_org_count m + 1"
proof -
  from entry_identifier_field[OF id] nm have
    f: "entry_field org_data ''organization'' ''identifier'' PNone = Inr oid" "truthy oid"
       "entry_field org_data ''organization'' ''name'' oid = Inr oname"
    by auto
  let ?m1 = "m\<lparr>processed_org_count := processed_org_count m + 1\<rparr>"
  let ?line = "[Lit (CHR 0x0A # ''Processing Organization ''),
                Val (PInt (processed_org_count m + 1)), Lit ''/'',
                Val (PInt (int n)), Lit '': '', Val oname,
                Lit '' (ID: '', Val oid, Lit '')'']"
  from ret f have p1: "con ?line = None"
    by (auto simp: org_step_def Let_def print_def split: option.splits)
  let ?w1 = "written ?line w"
  from ret f p1 obtain projects w2 where
    gp: "get_projects con srv base hs acc oid ?w1 = Some (Inr projects, w2)"
    by (cases "get_projects con srv base hs acc oid ?w1")
       (auto simp: org_step_def Let_def print_def split: sum.splits)
  show ?thesis
  proof (cases "projects = []")
    case True
    with ret f p1 gp have "m' = ?m1"
      by (auto simp: org_step_def Let_def print_def split: option.splits)
    with gp True show ?thesis
      by (intro exI[of _ projects] exI[of _ "[]"] exI[of _ ?w1] exI[of _ w2])
         (simp add: identified_def)
  next
    case False
    with ret f p1 gp have
      "py_for (project_step con srv fadd base hs acc oid oname) projects (?m1, w2) =
         Some (Inr (m', w'))"
      by (simp add: org_step_def Let_def print_def)
    from project_loop_rows[OF this] obtain cs where
      "list_all2
          (\<lambda>p c. \<exists>w1 w2. get_pipeline_count con srv base hs acc oid
                             (the (entry_identifier ''project'' p)) w1 = Some (Inr c, w2))
          (identified projects) cs"
      "all_pipeline_data m' = all_pipeline_data ?m1 @
           map2 (\<lambda>p c. PDict [(''Project'', the (entry_name ''project'' p)),
                               (''Organization'', oname), (''Pipeline Count'', c)])
             (identified projects) cs"
      "processed_project_count m' =
         processed_project_count ?m1 + int (length (identified projects))"
      "processed_org_count m' = processed_org_count ?m1"
      by blast
    with gp show ?thesis
      by (intro exI[of _ projects] exI[of _ cs] exI[of _ ?w1] exI[of _ w2]) simp
  qed
qed

text \<open>When the steps return: the lines can be written, the entries are well formed, every
  count comes back as an integer, and the total so far is an integer.\<close>

lemma project_step_returns:
  assumes wr: "writable con"
    and ok: "entry_ok ''project'' p"
    and counts: "\<forall>pid w1. \<exists>c w2. get_pipeline_count con srv base hs acc oid pid w1 =
                                    Some (Inr (PInt c), w2)"
    and tot: "processed_pipeline_count m = PInt t"
  shows "\<exists>m' w' t'. project_step con srv fadd base hs acc oid oname p (m, w) = Some (Inr (m', w'))
           \<and> processed_pipeline_count m' = PInt t'"
proof -
  from entry_ok_field[OF ok] obtain v nm where
    f: "entry_field p ''project'' ''identifier'' PNone = Inr v"
       "entry_field p ''project'' ''name'' v = Inr nm" by blast
  show ?thesis
  proof (cases "truthy v")
    case False
    with f tot show ?thesis
      by (simp add: project_step_def print_writable[OF wr])
  next
    case True
    let ?w1 = "written [Lit ''  Processing Project: '', Val nm, Lit '' (ID: '', Val v, Lit '')''] w"
    from counts obtain c w2 where
      "get_pipeline_count con srv base hs acc oid v ?w1 = Some (Inr (PInt c), w2)" by blast
    with f True tot show ?thesis
      by (simp add: project_step_def Let_def print_writable[OF wr] py_add_def)
  qed
qed

lemma project_loop_returns:
  assumes wr: "writable con"
    and counts: "\<forall>pid w1. \<exists>c w2. get_pipeline_count con srv base hs acc oid pid w1 =
                                    Some (Inr (PInt c), w2)"
  shows "list_all (entry_ok ''project'') ps \<Longrightarrow> processed_pipeline_count m = PInt t \<Longrightarrow>
         \<exists>m' w'. py_for (project_step con srv fadd base hs acc oid oname) ps (m, w) =
                   Some (Inr (m', w'))"
proof (induction ps arbitrary: m w t)
  case Nil
  then show ?case by simp
next
  case (Cons p ps)
  from Cons.prems have ok: "entry_ok ''project'' p" and oks: "list_all (entry_ok ''project'') ps"
    by simp_all
  from project_step_returns[OF wr ok counts Cons.prems(2), of fadd oname w] obtain m1 w1 t1 where
    s: "project_step con srv fadd base hs acc oid oname p (m, w) = Some (Inr (m1, w1))"
       "processed_pipeline_count m1 = PInt t1" by blast
  from Cons.IH[OF oks s(2), of w1] s(1) show ?case by simp
qed

lemma org_step_returns:
  assumes wr: "writable con"
    and id: "entry_identifier ''organization'' org_data = Some oid"
    and lookup: "\<forall>w1. \<exists>ps w2. get_projects con srv base hs acc oid w1 = Some (Inr ps, w2)
                            \<and> list_all (entry_ok ''project'') ps"
    and counts: "\<forall>pid w1. \<exists>c w2. get_pipeline_count con srv base hs acc oid pid w1 =
                                    Some (Inr (PInt c), w2)"
    and tot: "processed_pipeline_count m = PInt t"
  shows "\<exists>m' w'. org_step con srv fadd base hs acc n org_data (m, w) = Some (Inr (m', w'))"
proof -
  from entry_identifier_field[OF id] obtain oname where
    f: "entry_field org_data ''organization'' ''identifier'' PNone = Inr oid" "truthy oid"
       "entry_field org_data ''organization'' ''name'' oid = Inr oname"
    by blast
  let ?m1 = "m\<lparr>processed_org_count := processed_org_count m + 1\<rparr>"
  let ?w1 = "written [Lit (CHR 0x0A # ''Processing Organization ''),
                Val (PInt (processed_org_count m + 1)), Lit ''/'',
                Val (PInt (int n)), Lit '': '', Val oname,
                Lit '' (ID: '', Val oid, Lit '')''] w"
  from lookup obtain ps w2 where
    gp: "get_projects con srv base hs acc oid ?w1 = Some (Inr ps, w2)"
        "list_all (entry_ok ''project'') ps" by blast
  have "processed_pipeline_count ?m1 = PInt t" using tot by simp
  from project_loop_returns[OF wr counts gp(2) this, of fadd oname w2] obtain m' w' where
    "py_for (project_step con srv fadd base hs acc oid oname) ps (?m1, w2) = Some (Inr (m', w'))"
    by blast
  with f gp show ?thesis
    by (cases "ps = []") (simp_all add: org_step_def Let_def print_writable[OF wr])
qed

text \<open>
  C7. Take an organization entry that has an identifier. Whenever its step of the
  traversal returns, the rows it has appended are these: one row for each project entry
  with an identifier in the list that the project lookup returned on the log of requests
  as the step found it, in the order of the list, and no other; the row of a project holds the name of the project under
  \<^verbatim>\<open>Project\<close>, the name of the organization under \<^verbatim>\<open>Organization\<close> and, under
  \<^verbatim>\<open>Pipeline Count\<close>, a count that \<open>get_pipeline_count\<close> returned for this organization
  and this project, whatever that count is, 0 included; and the project counter has
  grown by the number of these rows. And the step does return when every line can be
  written, the project lookup returns a list of well-formed entries, every count comes
  back as an integer, and the total so far is an integer.
\<close>

theorem project_rows:
  assumes "entry_identifier ''organization'' org_data = Some oid"
    and "entry_name ''organization'' org_data = Some oname"
  shows "(org_step con srv fadd base hs acc n org_data (m, w) = Some (Inr (m', w')) \<longrightarrow>
           (\<exists>projects cs w1 w2.
               exchanges w1 = exchanges w
             \<and> get_projects con srv base hs acc oid w1 = Some (Inr projects, w2)
             \<and> list_all2
                 (\<lambda>p c. \<exists>w1 w2. get_pipeline_count con srv base hs acc oid
                                    (the (entry_identifier ''project'' p)) w1 = Some (Inr c, w2))
                 (identified projects) cs
             \<and> all_pipeline_data m' = all_pipeline_data m @
                 map2 (\<lambda>p c. PDict [(''Project'', the (entry_name ''project'' p)),
                                     (''Organization'', oname), (''Pipeline Count'', c)])
                   (identified projects) cs
             \<and> processed_project_count m' =
                 processed_project_count m + int (length (identified projects))))
       \<and> (writable con
           \<and> (\<forall>w1. \<exists>ps w2. get_projects con srv base hs acc oid w1 = Some (Inr ps, w2)
                            \<and> list_all (entry_ok ''project'') ps)
           \<and> (\<forall>pid w1. \<exists>c w2. get_pipeline_count con srv base hs acc oid pid w1 =
                                   Some (Inr (PInt c), w2))
           \<and> (\<exists>t. processed_pipeline_count m = PInt t) \<longrightarrow>
           (\<exists>m1 w1. org_step con srv fadd base hs acc n org_data (m, w) = Some (Inr (m1, w1))))"
proof (intro conjI impI)
  assume "org_step con srv fadd base hs acc n org_data (m, w) = Some (Inr (m', w'))"
  from org_step_rows[OF assms this]
  show "\<exists>projects cs w1 w2.
               exchanges w1 = exchanges w
             \<and> get_projects con srv base hs acc oid w1 = Some (Inr projects, w2)
             \<and> list_all2
                 (\<lambda>p c. \<exists>w1 w2. get_pipeline_count con srv base hs acc oid
                                    (the (entry_identifier ''project'' p)) w1 = Some (Inr c, w2))
                 (identified projects) cs
             \<and> all_pipeline_data m' = all_pipeline_data m @
                 map2 (\<lambda>p c. PDict [(''Project'', the (entry_name ''project'' p)),
                                     (''Organization'', oname), (''Pipeline Count'', c)])
                   (identified projects) cs
             \<and> processed_project_count m' =
                 processed_project_count m + int (length (identified projects))"
    by blast
next
  assume h: "writable con
           \<and> (\<forall>w1. \<exists>ps w2. get_projects con srv base hs acc oid w1 = Some (Inr ps, w2)
                            \<and> list_all (entry_ok ''project'') ps)
           \<and> (\<forall>pid w1. \<exists>c w2. get_pipeline_count con srv base hs acc oid pid w1 =
                                   Some (Inr (PInt c), w2))
           \<and> (\<exists>t. processed_pipeline_count m = PInt t)"
  then obtain t where t: "processed_pipeline_count m = PInt t" by blast
  from h have wr: "writable con"
    and lookup: "\<forall>w1. \<exists>ps w2. get_projects con srv base hs acc oid w1 = Some (Inr ps, w2)
                            \<and> list_all (entry_ok ''project'') ps"
    and counts: "\<forall>pid w1. \<exists>c w2. get_pipeline_count con srv base hs acc oid pid w1 =
                                   Some (Inr (PInt c), w2)"
    by blast+
  from org_step_returns[OF wr assms(1) lookup counts t]
  show "\<exists>m1 w1. org_step con srv fadd base hs acc n org_data (m, w) = Some (Inr (m1, w1))" .
qed

lemma one_project_lookup:
  "\<exists>w2. get_projects accepting one_project_server base hs acc oid w1 =
          Some (Inr [PDict [(''project'',
                  PDict [(''identifier'', PStr ''p''), (''name'', PStr ''P'')])]], w2)"
  by (simp add: get_projects_def get_projects_body_def py_while_enter more_pages_def
      pstate0_def py_int_lt_def make_api_request_def try_get_def raise_for_status_def
      one_project_server_def const_server_def ok_response_def cond_nested_def
      nested_items_def nested_total_pages_def py_eq_int_def Let_def)

lemma one_project_count:
  "\<exists>w2. get_pipeline_count accepting one_project_server base hs acc oid pid w1 =
          Some (Inr (PInt 0), w2)"
  by (simp add: get_pipeline_count_def count_request_def make_api_request_def try_get_def
      raise_for_status_def one_project_server_def const_server_def ok_response_def Let_def)

theorem project_rows_witness:
  "\<exists>m' w'. org_step accepting one_project_server no_floats ''h'' [] ''acc'' 1
              (PDict [(''organization'',
                 PDict [(''identifier'', PStr ''o''), (''name'', PStr ''O'')])])
              (mstate0, w0) = Some (Inr (m', w'))
        \<and> all_pipeline_data m' =
            [PDict [(''Project'', PStr ''P''), (''Organization'', PStr ''O''),
                    (''Pipeline Count'', PInt 0)]]
        \<and> processed_project_count m' = 1"
proof -
  let ?org = "PDict [(''organization'',
                PDict [(''identifier'', PStr ''o''), (''name'', PStr ''O'')])]"
  let ?p = "PDict [(''project'', PDict [(''identifier'', PStr ''p''), (''name'', PStr ''P'')])]"
  have id: "entry_identifier ''organization'' ?org = Some (PStr ''o'')"
    and nm: "entry_name ''organization'' ?org = Some (PStr ''O'')"
    by (simp_all add: entry_identifier_def entry_name_def)
  have ok: "list_all (entry_ok ''project'') [?p]" by (simp add: entry_ok_def)
  have lookup: "\<forall>w1. \<exists>ps w2. get_projects accepting one_project_server ''h'' [] ''acc''
                                 (PStr ''o'') w1 = Some (Inr ps, w2)
                            \<and> list_all (entry_ok ''project'') ps"
    using one_project_lookup[of "''h''" "[]" "''acc''" "PStr ''o''"] ok by blast
  have counts: "\<forall>pid w1. \<exists>c w2. get_pipeline_count accepting one_project_server ''h'' []
                                    ''acc'' (PStr ''o'') pid w1 = Some (Inr (PInt c), w2)"
    using one_project_count[of "''h''" "[]" "''acc''" "PStr ''o''"] by blast
  have tot: "\<exists>t. processed_pipeline_count mstate0 = PInt t" by (simp add: mstate0_def)
  note rows = project_rows
      [where org_data = ?org and oid = "PStr ''o''" and oname = "PStr ''O''"
         and con = accepting and srv = one_project_server and fadd = no_floats
         and base = "''h''" and hs = "[]" and acc = "''acc''" and n = 1
         and m = mstate0 and w = w0, OF id nm]
  from rows[THEN conjunct2] writable_accepting lookup counts tot obtain m1 w1 where
    ret: "org_step accepting one_project_server no_floats ''h'' [] ''acc'' 1 ?org (mstate0, w0)
            = Some (Inr (m1, w1))"
    by blast
  from rows[where m' = m1 and w' = w1] ret obtain projects cs wa wb where
    gp: "get_projects accepting one_project_server ''h'' [] ''acc'' (PStr ''o'') wa =
           Some (Inr projects, wb)"
    and each: "list_all2
                 (\<lambda>p c. \<exists>w1 w2. get_pipeline_count accepting one_project_server ''h'' []
                                    ''acc'' (PStr ''o'')
                                    (the (entry_identifier ''project'' p)) w1 = Some (Inr c, w2))
                 (identified projects) cs"
    and data: "all_pipeline_data m1 = all_pipeline_data mstate0 @
                 map2 (\<lambda>p c. PDict [(''Project'', the (entry_name ''project'' p)),
                                     (''Organization'', PStr ''O''), (''Pipeline Count'', c)])
                   (identified projects) cs"
    and cnt: "processed_project_count m1 =
                processed_project_count mstate0 + int (length (identified projects))"
    by blast
  from gp one_project_lookup[of "''h''" "[]" "''acc''" "PStr ''o''" wa]
  have ps: "projects = [?p]" by auto
  then have idf: "identified projects = [?p]"
    by (simp add: identified_def entry_identifier_def)
  from each idf obtain c where c: "cs = [c]"
    and "\<exists>w1 w2. get_pipeline_count accepting one_project_server ''h'' [] ''acc'' (PStr ''o'')
                     (the (entry_identifier ''project'' ?p)) w1 = Some (Inr c, w2)"
    by (auto simp: list_all2_Cons1)
  with one_project_count[of "''h''" "[]" "''acc''" "PStr ''o''"
         "the (entry_identifier ''project'' ?p)"]
  have "c = PInt 0" by (metis Pair_inject option.inject sum.inject(2))
  with data cnt idf c ret show ?thesis
    by (simp add: mstate0_def entry_name_def)
qed
end
